theory Spec2Isabelle
  imports Complex_Main
begin

section \<open>FOON search: the data model\<close>

text \<open>
  The program is the class \<open>OptimizedFOONSearch\<close> of \<open>foon_parse_assign2.py\<close> and the
  driver \<open>test_script.py\<close>. A \<open>char\<close> is a code point below 256, and a string is
  a Python \<open>str\<close> of such code points (Latin-1 text); the character classes below are
  Python's on that range. A functional unit is a Python list of normalized lines.
\<close>

type_synonym funit = "string list"

text \<open>
  The exceptions the modelled code can raise: \<open>xs[1]\<close> beyond the end of a list and
  \<open>1 / 0.0\<close>.
\<close>

datatype error = IndexError | ZeroDivisionError

text \<open>
  A success rate is what \<open>float(parts[1])\<close> returns (or the default \<open>1\<close>). The only use
  of it is the quotient \<open>1 / success_rate\<close>, whose value is stored in a local that is
  never read; rounding is therefore left out and a finite float is the real it denotes.
\<close>

datatype pyfloat = Finite real | PosInf | NegInf | NaN

record foon =
  graph :: "funit list"
  unit_to_objects :: "string \<rightharpoonup> funit list"
  kitchen :: "string set"
  motion_data :: "string \<rightharpoonup> pyfloat"

text \<open>
  \<open>available_in_kitchen\<close> returns either the object \<open>True\<close> or the list of missing names.
\<close>

datatype kitchen_status = PyTrue | Missing "string list"

section \<open>String primitives of Python\<close>

text \<open>
  Whitespace for \<open>str.split\<close>, \<open>str.strip\<close> and \<open>\s\<close>: tab, LF, VT, FF, CR, the
  separators 28 to 31, space, and beyond ASCII the next-line control U+0085 and the
  no-break space U+00A0.
\<close>

definition isspace :: "char \<Rightarrow> bool" where
  "isspace c =
     (let n = (of_char c :: nat)
      in (9 \<le> n \<and> n \<le> 13) \<or> (28 \<le> n \<and> n \<le> 32) \<or> n = 133 \<or> n = 160)"

text \<open>\<open>s.startswith(p)\<close>.\<close>

definition startswith :: "string \<Rightarrow> string \<Rightarrow> bool" where
  "startswith s p = (take (length p) s = p)"

text \<open>
  \<open>s.split()\<close> with no argument: the maximal runs of non-whitespace characters;
  \<open>cur\<close> is the token being read.
\<close>

fun split_from :: "string \<Rightarrow> string \<Rightarrow> string list" where
  "split_from cur [] = (if cur = [] then [] else [cur])"
| "split_from cur (c # cs) =
     (if isspace c then (if cur = [] then split_from [] cs else cur # split_from [] cs)
      else split_from (cur @ [c]) cs)"

definition py_split :: "string \<Rightarrow> string list" where
  "py_split s = split_from [] s"

text \<open>\<open>xs[0]\<close> and \<open>xs[1]\<close>, raising \<open>IndexError\<close> on a list that is too short.\<close>

fun index0 :: "'a list \<Rightarrow> error + 'a" where
  "index0 (x # xs) = Inr x"
| "index0 [] = Inl IndexError"

fun index1 :: "'a list \<Rightarrow> error + 'a" where
  "index1 (x # y # xs) = Inr y"
| "index1 xs = Inl IndexError"

text \<open>\<open>sep.join(xs)\<close>.\<close>

fun py_join :: "string \<Rightarrow> string list \<Rightarrow> string" where
  "py_join sep [] = []"
| "py_join sep [x] = x"
| "py_join sep (x # y # ys) = x @ sep @ py_join sep (y # ys)"

text \<open>\<open>p in s\<close> on strings: \<open>p\<close> occurs in \<open>s\<close> as a contiguous substring.\<close>

fun py_in :: "string \<Rightarrow> string \<Rightarrow> bool" where
  "py_in p [] = (p = [])"
| "py_in p (c # cs) = (startswith (c # cs) p \<or> py_in p cs)"

section \<open>The availability check and the goal matcher\<close>

text \<open>
  Every method takes \<open>self\<close> and returns its result together with \<open>self\<close> as the call
  leaves it. A raised exception is \<open>Inl\<close>. Output written by \<open>print\<close> is not modelled.
\<close>

type_synonym 'a outcome = "(error + 'a) \<times> foon"

text \<open>The loop of \<open>available_in_kitchen\<close> over the lines of the unit.\<close>

fun available_loop :: "foon \<Rightarrow> string list \<Rightarrow> funit \<Rightarrow> (string list) outcome" where
  "available_loop self missing_objects [] = (Inr missing_objects, self)"
| "available_loop self missing_objects (line # rest) =
     (if startswith line ''o'' then
        (case index1 (py_split line) of
           Inl e \<Rightarrow> (Inl e, self)
         | Inr object_name \<Rightarrow>
             if object_name \<notin> kitchen self
             then available_loop self (missing_objects @ [object_name]) rest
             else available_loop self missing_objects rest)
      else available_loop self missing_objects rest)"

definition available_in_kitchen :: "foon \<Rightarrow> funit \<Rightarrow> kitchen_status outcome" where
  "available_in_kitchen self unit =
     (case available_loop self [] unit of
        (Inl e, self') \<Rightarrow> (Inl e, self')
      | (Inr missing_objects, self') \<Rightarrow>
          (Inr (if missing_objects = [] then PyTrue else Missing missing_objects), self'))"

text \<open>Python's truth value of such a result: \<open>True\<close> is true, a list is true unless empty.\<close>

fun truthy :: "kitchen_status \<Rightarrow> bool" where
  "truthy PyTrue = True"
| "truthy (Missing xs) = (xs \<noteq> [])"

text \<open>\<open>status == True\<close>: a list never equals \<open>True\<close>.\<close>

fun eq_True :: "kitchen_status \<Rightarrow> bool" where
  "eq_True PyTrue = True"
| "eq_True (Missing xs) = False"

text \<open>
  The loop of \<open>unit_matches_goal\<close>, carrying the two flags. The method reads nothing
  of \<open>self\<close>.
\<close>

fun matches_loop :: "foon \<Rightarrow> funit \<Rightarrow> string \<Rightarrow> string \<Rightarrow> bool \<Rightarrow> bool \<Rightarrow> bool outcome" where
  "matches_loop self [] goal_object goal_state object_match state_match =
     (Inr (object_match \<and> state_match), self)"
| "matches_loop self (line # rest) goal_object goal_state object_match state_match =
     (let parts = py_split line in
      if startswith line ''o'' then
        (case index1 parts of
           Inl e \<Rightarrow> (Inl e, self)
         | Inr object_name \<Rightarrow>
             if goal_object = object_name
             then matches_loop self rest goal_object goal_state True state_match
             else matches_loop self rest goal_object goal_state object_match state_match)
      else if startswith line ''s'' then
        (let state_value = py_join '' '' (drop 1 parts) in
         if py_in goal_state state_value \<or> goal_state = state_value
         then matches_loop self rest goal_object goal_state object_match True
         else matches_loop self rest goal_object goal_state object_match state_match)
      else matches_loop self rest goal_object goal_state object_match state_match)"

definition unit_matches_goal :: "foon \<Rightarrow> funit \<Rightarrow> string \<Rightarrow> string \<Rightarrow> bool outcome" where
  "unit_matches_goal self unit goal_object goal_state =
     matches_loop self unit goal_object goal_state False False"

text \<open>
  Both loops read \<open>line.split()[1]\<close> on every line that starts with \<open>o\<close>. The predicate
  says that each such line of a unit has that second token.
\<close>

definition object_lines_ok :: "funit \<Rightarrow> bool" where
  "object_lines_ok u = list_all (\<lambda>line. startswith line ''o'' \<longrightarrow> 2 \<le> length (py_split line)) u"

section \<open>Depth-limited and iterative-deepening search\<close>

text \<open>The \<open>for unit in self.unit_to_objects[goal_object]\<close> loop of \<open>depth_limited_search\<close>.\<close>

fun dls_loop :: "foon \<Rightarrow> funit list \<Rightarrow> string \<Rightarrow> string \<Rightarrow> (funit option) outcome" where
  "dls_loop self [] goal_object goal_state = (Inr None, self)"
| "dls_loop self (unit # rest) goal_object goal_state =
     (case unit_matches_goal self unit goal_object goal_state of
        (Inl e, self1) \<Rightarrow> (Inl e, self1)
      | (Inr m, self1) \<Rightarrow>
          if m then
            (case available_in_kitchen self1 unit of
               (Inl e, self2) \<Rightarrow> (Inl e, self2)
             | (Inr kitchen_status, self2) \<Rightarrow>
                 if kitchen_status = PyTrue then (Inr (Some unit), self2)
                 else dls_loop self2 rest goal_object goal_state)
          else dls_loop self1 rest goal_object goal_state)"

definition depth_limited_search :: "foon \<Rightarrow> string \<Rightarrow> string \<Rightarrow> int \<Rightarrow> (funit option) outcome" where
  "depth_limited_search self goal_object goal_state depth =
     (if depth = 0 then (Inr None, self)
      else case unit_to_objects self goal_object of
             None \<Rightarrow> (Inr None, self)
           | Some bucket \<Rightarrow> dls_loop self bucket goal_object goal_state)"

text \<open>\<open>if result:\<close> on a value that is \<open>None\<close> or a list of lines.\<close>

fun truthy_result :: "funit option \<Rightarrow> bool" where
  "truthy_result None = False"
| "truthy_result (Some unit) = (unit \<noteq> [])"

text \<open>\<open>range(max_depth)\<close>: empty when \<open>max_depth\<close> is not positive.\<close>

definition py_range :: "int \<Rightarrow> int list" where
  "py_range n = map int [0..<nat n]"

fun ids_loop :: "foon \<Rightarrow> string \<Rightarrow> string \<Rightarrow> int list \<Rightarrow> (funit option) outcome" where
  "ids_loop self goal_object goal_state [] = (Inr None, self)"
| "ids_loop self goal_object goal_state (depth # rest) =
     (case depth_limited_search self goal_object goal_state depth of
        (Inl e, self1) \<Rightarrow> (Inl e, self1)
      | (Inr result, self1) \<Rightarrow>
          if truthy_result result then (Inr result, self1)
          else ids_loop self1 goal_object goal_state rest)"

definition iterative_deepening_search ::
    "foon \<Rightarrow> string \<Rightarrow> string \<Rightarrow> int \<Rightarrow> (funit option) outcome" where
  "iterative_deepening_search self goal_object goal_state max_depth =
     ids_loop self goal_object goal_state (py_range max_depth)"

section \<open>The search called A*\<close>

text \<open>\<open>1 / success_rate\<close>: only a zero divisor raises.\<close>

fun one_over :: "pyfloat \<Rightarrow> error + pyfloat" where
  "one_over (Finite r) = (if r = 0 then Inl ZeroDivisionError else Inr (Finite (1 / r)))"
| "one_over PosInf = Inr (Finite 0)"
| "one_over NegInf = Inr (Finite 0)"
| "one_over NaN = Inr NaN"

text \<open>
  The \<open>for unit in self.unit_to_objects[current_object]\<close> loop. \<open>None\<close> means that the
  loop ran to its end, \<open>Some unit\<close> that the method returned \<open>unit\<close>. The conjunction is
  short-circuit: the availability check runs only on a matching unit, and its result
  is used for its truth value. The sum \<open>new_cost\<close> is never read.
\<close>

fun a_star_units :: "foon \<Rightarrow> funit list \<Rightarrow> string \<Rightarrow> string \<Rightarrow> (funit option) outcome" where
  "a_star_units self [] current_object current_state = (Inr None, self)"
| "a_star_units self (unit # rest) current_object current_state =
     (case unit_matches_goal self unit current_object current_state of
        (Inl e, self1) \<Rightarrow> (Inl e, self1)
      | (Inr m, self1) \<Rightarrow>
          if m then
            (case available_in_kitchen self1 unit of
               (Inl e, self2) \<Rightarrow> (Inl e, self2)
             | (Inr kitchen_status, self2) \<Rightarrow>
                 if truthy kitchen_status then
                   (case index0 unit of
                      Inl e \<Rightarrow> (Inl e, self2)
                    | Inr first_line \<Rightarrow>
                        (case index1 (py_split first_line) of
                           Inl e \<Rightarrow> (Inl e, self2)
                         | Inr key \<Rightarrow>
                             (let success_rate =
                                    (case motion_data self2 key of
                                       None \<Rightarrow> Finite 1
                                     | Some r \<Rightarrow> r)
                              in case one_over success_rate of
                                   Inl e \<Rightarrow> (Inl e, self2)
                                 | Inr q \<Rightarrow> (Inr (Some unit), self2))))
                 else a_star_units self2 rest current_object current_state)
          else a_star_units self1 rest current_object current_state)"

text \<open>
  The \<open>while open_list\<close> loop. The heap holds the nodes still to pop, smallest first;
  the body never pushes, so it only ever holds the start node, and \<open>heappop\<close> takes the
  head.
\<close>

type_synonym node = "pyfloat \<times> string \<times> string"

fun a_star_loop :: "foon \<Rightarrow> node list \<Rightarrow> (string \<times> string) set \<Rightarrow> (funit option) outcome" where
  "a_star_loop self [] closed_list = (Inr None, self)"
| "a_star_loop self ((current_cost, current_object, current_state) # open_list) closed_list =
     (if (current_object, current_state) \<in> closed_list
      then a_star_loop self open_list closed_list
      else
        (let closed_list' = insert (current_object, current_state) closed_list in
         case unit_to_objects self current_object of
           None \<Rightarrow> a_star_loop self open_list closed_list'
         | Some bucket \<Rightarrow>
             (case a_star_units self bucket current_object current_state of
                (Inl e, self1) \<Rightarrow> (Inl e, self1)
              | (Inr (Some unit), self1) \<Rightarrow> (Inr (Some unit), self1)
              | (Inr None, self1) \<Rightarrow> a_star_loop self1 open_list closed_list')))"

definition a_star_search :: "foon \<Rightarrow> string \<Rightarrow> string \<Rightarrow> (funit option) outcome" where
  "a_star_search self goal_object goal_state =
     a_star_loop self [(Finite 0, goal_object, goal_state)] {}"

section \<open>The driver's filter\<close>

text \<open>
  \<open>run_available_units_check\<close> of \<open>test_script.py\<close>: the units of \<open>graph\<close> whose
  availability result compares equal to \<open>True\<close>.
\<close>

fun usable_loop :: "foon \<Rightarrow> funit list \<Rightarrow> funit list \<Rightarrow> (funit list) outcome" where
  "usable_loop self usable_units [] = (Inr usable_units, self)"
| "usable_loop self usable_units (functional_unit # rest) =
     (case available_in_kitchen self functional_unit of
        (Inl e, self1) \<Rightarrow> (Inl e, self1)
      | (Inr status, self1) \<Rightarrow>
          if eq_True status then usable_loop self1 (usable_units @ [functional_unit]) rest
          else usable_loop self1 usable_units rest)"

definition usable_units_of :: "foon \<Rightarrow> (funit list) outcome" where
  "usable_units_of foon_system = usable_loop foon_system [] (graph foon_system)"

section \<open>The parser\<close>

text \<open>
  \<open>\w\<close> on a \<open>str\<close> pattern: the alphanumeric characters and the underscore. Below 128
  these are the digits and the letters; from 128 to 255 the letters U+00AA, U+00B5,
  U+00BA, U+00C0 to U+00FF without the signs U+00D7 and U+00F7, and the numeric
  characters U+00B2, U+00B3, U+00B9 and U+00BC to U+00BE.
\<close>

definition is_word :: "char \<Rightarrow> bool" where
  "is_word c =
     (let n = (of_char c :: nat)
      in (48 \<le> n \<and> n \<le> 57) \<or> (65 \<le> n \<and> n \<le> 90) \<or> n = 95 \<or> (97 \<le> n \<and> n \<le> 122) \<or>
         n = 170 \<or> (178 \<le> n \<and> n \<le> 179) \<or> n = 181 \<or> (185 \<le> n \<and> n \<le> 186) \<or>
         (188 \<le> n \<and> n \<le> 190) \<or> (192 \<le> n \<and> n \<le> 214) \<or> (216 \<le> n \<and> n \<le> 246) \<or>
         (248 \<le> n \<and> n \<le> 255))"

text \<open>
  \<open>str.lower\<close>: the capital letters A to Z, U+00C0 to U+00D6 and U+00D8 to U+00DE go
  to the letter 32 places further; every other character below 256 stays.
\<close>

definition is_upper :: "char \<Rightarrow> bool" where
  "is_upper c =
     (let n = (of_char c :: nat)
      in (65 \<le> n \<and> n \<le> 90) \<or> (192 \<le> n \<and> n \<le> 214) \<or> (216 \<le> n \<and> n \<le> 222))"

definition lower_char :: "char \<Rightarrow> char" where
  "lower_char c = (if is_upper c then char_of ((of_char c :: nat) + 32) else c)"

definition py_lower :: "string \<Rightarrow> string" where
  "py_lower s = map lower_char s"

text \<open>\<open>str.strip()\<close>: whitespace removed at both ends.\<close>

definition py_strip :: "string \<Rightarrow> string" where
  "py_strip s = rev (dropWhile isspace (rev (dropWhile isspace s)))"

text \<open>\<open>str.rstrip()\<close>: whitespace removed at the right end, the second half of \<open>strip\<close>.\<close>

definition rstrip :: "string \<Rightarrow> string" where
  "rstrip s = rev (dropWhile isspace (rev s))"

text \<open>
  \<open>re.sub(r'\s+', ' ', s)\<close>: every maximal run of whitespace becomes one space. The
  flag says that the previous character was whitespace, whose space is already written.
\<close>

fun sub_spaces :: "bool \<Rightarrow> string \<Rightarrow> string" where
  "sub_spaces in_run [] = []"
| "sub_spaces in_run (c # cs) =
     (if isspace c then (if in_run then sub_spaces True cs else CHR '' '' # sub_spaces True cs)
      else c # sub_spaces False cs)"

text \<open>
  The first two statements of the loop body: \<open>re.sub(r'[^\w\s]', '', line)\<close> keeps the
  word characters and the whitespace, then \<open>strip\<close>, \<open>lower\<close> and the second \<open>re.sub\<close>.
\<close>

definition normalize :: "string \<Rightarrow> string" where
  "normalize line =
     sub_spaces False (py_lower (py_strip (filter (\<lambda>c. is_word c \<or> isspace c) line)))"

text \<open>The test \<open>line == '\\' or line == ''\<close> on the normalized line.\<close>

definition is_delimiter :: "string \<Rightarrow> bool" where
  "is_delimiter line = (line = [CHR 0x5C] \<or> line = [])"

text \<open>
  \<open>load_foon\<close> appends the list object \<open>current_unit\<close> itself to \<open>units\<close> and to the
  buckets, and goes on appending lines to it: what a bucket holds in the end is the whole
  unit, not the part read when the object line was met. The model keeps the list objects
  in a store; an address is a position in \<open>lists\<close>, \<open>units\<close> and the buckets hold
  addresses, and \<open>current_unit\<close> is the address the variable is bound to.
\<close>

record loader =
  lists :: "funit list"
  units :: "nat list"
  buckets :: "string \<rightharpoonup> nat list"
  current_unit :: nat

text \<open>One turn of the loop, on the normalized line.\<close>

definition load_line :: "loader \<Rightarrow> string \<Rightarrow> error + loader" where
  "load_line st line =
     (if is_delimiter line then
        Inr (st\<lparr>units := (if lists st ! current_unit st \<noteq> [] then units st @ [current_unit st]
                          else units st),
                lists := lists st @ [[]],
                current_unit := length (lists st)\<rparr>)
      else
        (let st1 = st\<lparr>lists := (lists st)[current_unit st := lists st ! current_unit st @ [line]]\<rparr>
         in if startswith line ''o'' then
              (case index1 (py_split line) of
                 Inl e \<Rightarrow> Inl e
               | Inr object_name \<Rightarrow>
                   Inr (st1\<lparr>buckets := (buckets st1)(object_name \<mapsto>
                          (case buckets st1 object_name of None \<Rightarrow> [] | Some bucket \<Rightarrow> bucket)
                            @ [current_unit st1])\<rparr>))
            else Inr st1))"

fun load_lines :: "loader \<Rightarrow> string list \<Rightarrow> error + loader" where
  "load_lines st [] = Inr st"
| "load_lines st (line # rest) =
     (case load_line st (normalize line) of
        Inl e \<Rightarrow> Inl e
      | Inr st' \<Rightarrow> load_lines st' rest)"

text \<open>
  The method, on the lines that \<open>readlines\<close> returned. The result is the pair
  \<open>(units, unit_to_objects)\<close> with every address replaced by the list it denotes when
  the method returns.
\<close>

definition load_foon :: "string list \<Rightarrow> error + (funit list \<times> (string \<rightharpoonup> funit list))" where
  "load_foon file_lines =
     (case load_lines \<lparr>lists = [[]], units = [], buckets = Map.empty, current_unit = 0\<rparr>
             file_lines of
        Inl e \<Rightarrow> Inl e
      | Inr st \<Rightarrow>
          Inr (map (\<lambda>a. lists st ! a) (units st),
               \<lambda>object_name. map_option (map (\<lambda>a. lists st ! a)) (buckets st object_name)))"

section \<open>The parser as the specification describes it\<close>

text \<open>
  The lines between delimiters: the normalized lines cut at every delimiter line. A
  piece is empty where two delimiters follow each other, or at either end of the file.
\<close>

fun pieces :: "string list \<Rightarrow> funit list" where
  "pieces [] = [[]]"
| "pieces (line # rest) =
     (if is_delimiter line then [] # pieces rest
      else (line # hd (pieces rest)) # tl (pieces rest))"

text \<open>The units are the groups of consecutive lines that are not delimiters.\<close>

definition spec_units :: "string list \<Rightarrow> funit list" where
  "spec_units normalized = filter (\<lambda>unit. unit \<noteq> []) (pieces normalized)"

text \<open>
  The bucket of an object name: every unit, once for each of its lines that start with
  \<open>o\<close> and name the object, in the order of those lines in the file.
\<close>

definition spec_bucket :: "string \<Rightarrow> funit list \<Rightarrow> funit list" where
  "spec_bucket object_name us =
     concat (map (\<lambda>unit. replicate
        (length (filter (\<lambda>line. startswith line ''o'' \<and> py_split line ! 1 = object_name) unit))
        unit) us)"

text \<open>A dictionary has a key only for a bucket that was created.\<close>

definition bucket_entry :: "funit list \<Rightarrow> funit list option" where
  "bucket_entry bucket = (if bucket = [] then None else Some bucket)"

text \<open>The file is empty or its last line is a delimiter.\<close>

definition ends_with_delimiter :: "string list \<Rightarrow> bool" where
  "ends_with_delimiter file_lines =
     (file_lines = [] \<or> is_delimiter (normalize (last file_lines)))"

text \<open>
  A file as \<open>readlines\<close> returns it: the cells of a line are separated by tabs and the
  line ends with a newline. The example unit, closed by the line \<open>//\<close>.
\<close>

definition raw_line :: "string list \<Rightarrow> string" where
  "raw_line cells = py_join [CHR 0x09] cells @ [CHR 0x0A]"

definition example_file :: "string list" where
  "example_file =
     [raw_line [''O1'', ''onion'', ''1''],
      raw_line [''S1'', ''whole''],
      raw_line [''O2'', ''knife'', ''0''],
      raw_line [''S2'', ''clean''],
      raw_line [''M1'', ''slice''],
      raw_line [''O3'', ''onion'', ''0''],
      raw_line [''S3'', ''Ring  Shaped.''],
      raw_line [''//'']]"

section \<open>The states of the loader\<close>

text \<open>A line that starts with \<open>o\<close> and has the given name as its second token.\<close>

definition names_object :: "string \<Rightarrow> string \<Rightarrow> bool" where
  "names_object object_name line = (startswith line ''o'' \<and> py_split line ! 1 = object_name)"

text \<open>
  The states that the loop of \<open>load_foon\<close> goes through. With \<open>done\<close> the list objects
  that were left behind at a delimiter, in order, and \<open>cur\<close> the contents of the one under
  construction: the store holds them in this order, \<open>units\<close> holds the addresses of
  the non-empty ones of \<open>done\<close>, and the bucket of a name holds every address once for
  each line of its list that names the object (no bucket when there is none).
\<close>

definition closed_refs :: "funit list \<Rightarrow> nat list" where
  "closed_refs done = map fst (filter (\<lambda>(a, unit). unit \<noteq> []) (enumerate 0 done))"

definition refs :: "string \<Rightarrow> funit list \<Rightarrow> nat list" where
  "refs object_name store =
     concat (map (\<lambda>(a, unit). replicate (length (filter (names_object object_name) unit)) a)
               (enumerate 0 store))"

definition loader_of :: "funit list \<Rightarrow> funit \<Rightarrow> loader" where
  "loader_of done cur =
     \<lparr>lists = done @ [cur],
      units = closed_refs done,
      buckets = (\<lambda>object_name. let r = refs object_name (done @ [cur])
                                in if r = [] then None else Some r),
      current_unit = length done\<rparr>"

section \<open>Example data\<close>

text \<open>
  One functional unit as the parser leaves it (slicing an onion into rings), and a loaded
  state whose index lists it once for each of its object lines.
\<close>

definition onion_unit :: funit where
  "onion_unit = [''o1 onion 1'', ''s1 whole'', ''o2 knife 0'', ''s2 clean'', ''m1 slice'',
                 ''o3 onion 0'', ''s3 ring shaped'']"

definition example_foon :: foon where
  "example_foon =
     \<lparr>graph = [onion_unit],
      unit_to_objects = [''onion'' \<mapsto> [onion_unit, onion_unit], ''knife'' \<mapsto> [onion_unit]],
      kitchen = {''onion'', ''knife''},
      motion_data = [''slice'' \<mapsto> Finite (9 / 10)]\<rparr>"

text \<open>The same state with a kitchen that has no onion.\<close>

definition no_onion_foon :: foon where
  "no_onion_foon = example_foon\<lparr>kitchen := {''knife''}\<rparr>"

text \<open>The same state after a motion file with the line \<open>onion 0\<close>.\<close>

definition zero_rate_foon :: foon where
  "zero_rate_foon = example_foon\<lparr>motion_data := [''onion'' \<mapsto> Finite 0]\<rparr>"

section \<open>Lemmas on the string primitives and the two checks\<close>

lemma index1_Inl: "index1 xs = Inl e \<longleftrightarrow> e = IndexError \<and> length xs < 2"
  by (cases xs rule: index1.cases) auto

lemma index1_Inr: "index1 xs = Inr y \<longleftrightarrow> 2 \<le> length xs \<and> y = xs ! 1"
  by (cases xs rule: index1.cases) auto

lemma startswith_iff: "startswith s p \<longleftrightarrow> (\<exists>ss. s = p @ ss)"
proof
  assume "startswith s p"
  then have "s = p @ drop (length p) s"
    by (metis append_take_drop_id startswith_def)
  then show "\<exists>ss. s = p @ ss" ..
next
  assume "\<exists>ss. s = p @ ss"
  then show "startswith s p" by (auto simp: startswith_def)
qed

lemma py_in_iff: "py_in p s \<longleftrightarrow> (\<exists>ps ss. s = ps @ p @ ss)"
proof (induction s)
  case Nil
  show ?case by auto
next
  case (Cons c cs)
  show ?case
  proof
    assume "py_in p (c # cs)"
    then consider "startswith (c # cs) p" | "py_in p cs" by auto
    then show "\<exists>ps ss. c # cs = ps @ p @ ss"
    proof cases
      case 1
      then obtain ss where "c # cs = p @ ss" by (auto simp: startswith_iff)
      then have "c # cs = [] @ p @ ss" by simp
      then show ?thesis by blast
    next
      case 2
      then obtain ps ss where "cs = ps @ p @ ss" using Cons.IH by auto
      then have "c # cs = (c # ps) @ p @ ss" by simp
      then show ?thesis by blast
    qed
  next
    assume "\<exists>ps ss. c # cs = ps @ p @ ss"
    then obtain ps ss where eq: "c # cs = ps @ p @ ss" by auto
    show "py_in p (c # cs)"
    proof (cases ps)
      case Nil
      then have "startswith (c # cs) p" using eq by (auto simp: startswith_iff)
      then show ?thesis by simp
    next
      case (Cons d ds)
      then have "cs = ds @ p @ ss" using eq by simp
      then have "py_in p cs" using Cons.IH by blast
      then show ?thesis by simp
    qed
  qed
qed

lemma startswith_s_not_o: "startswith line ''s'' \<Longrightarrow> \<not> startswith line ''o''"
  by (auto simp: startswith_def)

lemma available_loop_result:
  "fst (available_loop self acc u) =
     (if \<exists>line\<in>set u. startswith line ''o'' \<and> length (py_split line) < 2 then Inl IndexError
      else Inr (acc @ map (\<lambda>line. py_split line ! 1)
             (filter (\<lambda>line. startswith line ''o'' \<and> py_split line ! 1 \<notin> kitchen self) u)))"
proof (induction u arbitrary: acc)
  case Nil
  show ?case by simp
next
  case (Cons line rest)
  show ?case
  proof (cases "startswith line ''o''")
    case False
    then show ?thesis using Cons.IH by simp
  next
    case True
    show ?thesis
    proof (cases "index1 (py_split line)")
      case (Inl e)
      then have "e = IndexError" "length (py_split line) < 2"
        by (auto simp: index1_Inl)
      then show ?thesis using True Inl by auto
    next
      case (Inr name)
      then have "2 \<le> length (py_split line)" "name = py_split line ! 1"
        by (auto simp: index1_Inr)
      then show ?thesis using True Inr Cons.IH by auto
    qed
  qed
qed

lemma matches_loop_result:
  "fst (matches_loop self u g st om sm) =
     (if \<exists>line\<in>set u. startswith line ''o'' \<and> length (py_split line) < 2 then Inl IndexError
      else Inr ((om \<or> (\<exists>line\<in>set u. startswith line ''o'' \<and> py_split line ! 1 = g)) \<and>
                (sm \<or> (\<exists>line\<in>set u. startswith line ''s'' \<and>
                     py_in st (py_join '' '' (drop 1 (py_split line)))))))"
proof (induction u arbitrary: om sm)
  case Nil
  show ?case by simp
next
  case (Cons line rest)
  show ?case
  proof (cases "startswith line ''o''")
    case True
    then have ns: "\<not> startswith line ''s''" using startswith_s_not_o by blast
    show ?thesis
    proof (cases "index1 (py_split line)")
      case (Inl e)
      then have "e = IndexError" "length (py_split line) < 2"
        by (auto simp: index1_Inl)
      then show ?thesis using True Inl by auto
    next
      case (Inr name)
      then have "2 \<le> length (py_split line)" "name = py_split line ! 1"
        by (auto simp: index1_Inr)
      then show ?thesis using True ns Inr Cons.IH by auto
    qed
  next
    case False
    have e: "py_in st sv \<or> st = sv \<longleftrightarrow> py_in st sv" for sv
      by (cases sv) (auto simp: startswith_def)
    show ?thesis using False Cons.IH by (auto simp: Let_def e)
  qed
qed


section \<open>No method changes the loaded state\<close>

lemma available_loop_frame: "snd (available_loop self acc u) = self"
  by (induction u arbitrary: acc) (auto split: sum.splits)

lemma available_in_kitchen_frame: "snd (available_in_kitchen self u) = self"
  using available_loop_frame [of self "[]" u]
  by (auto simp: available_in_kitchen_def split: prod.splits sum.splits)

lemma matches_loop_frame: "snd (matches_loop self u g st om sm) = self"
  by (induction u arbitrary: om sm) (auto simp: Let_def split: sum.splits)

lemma unit_matches_goal_frame: "snd (unit_matches_goal self u g st) = self"
  by (simp add: unit_matches_goal_def matches_loop_frame)

lemma dls_loop_frame: "snd (dls_loop self us g st) = self"
proof (induction us)
  case Nil
  show ?case by simp
next
  case (Cons u us)
  obtain r where r: "unit_matches_goal self u g st = (r, self)"
    using unit_matches_goal_frame [of self u g st] by (cases "unit_matches_goal self u g st") simp
  obtain k where k: "available_in_kitchen self u = (k, self)"
    using available_in_kitchen_frame [of self u] by (cases "available_in_kitchen self u") simp
  show ?case using Cons r k by (auto split: sum.splits)
qed

section \<open>Results of the two checks\<close>

lemma object_lines_ok_iff:
  "object_lines_ok u \<longleftrightarrow>
     \<not> (\<exists>line\<in>set u. startswith line ''o'' \<and> length (py_split line) < 2)"
  by (auto simp: object_lines_ok_def list_all_iff not_less)

lemma unit_matches_goal_eq:
  "unit_matches_goal self u g st = (fst (unit_matches_goal self u g st), self)"
  using unit_matches_goal_frame [of self u g st] by (simp add: prod_eq_iff)

lemma available_in_kitchen_eq:
  "available_in_kitchen self u = (fst (available_in_kitchen self u), self)"
  using available_in_kitchen_frame [of self u] by (simp add: prod_eq_iff)

lemma available_in_kitchen_result:
  "fst (available_in_kitchen self u) =
     (if \<exists>line\<in>set u. startswith line ''o'' \<and> length (py_split line) < 2 then Inl IndexError
      else if \<forall>line\<in>set u. startswith line ''o'' \<longrightarrow> py_split line ! 1 \<in> kitchen self
           then Inr PyTrue
           else Inr (Missing (map (\<lambda>line. py_split line ! 1)
                  (filter (\<lambda>line. startswith line ''o'' \<and> py_split line ! 1 \<notin> kitchen self) u))))"
proof -
  let ?P = "\<lambda>line. startswith line ''o'' \<and> py_split line ! 1 \<notin> kitchen self"
  let ?ms = "map (\<lambda>line. py_split line ! 1) (filter ?P u)"
  have e: "?ms = [] \<longleftrightarrow> (\<forall>line\<in>set u. startswith line ''o'' \<longrightarrow> py_split line ! 1 \<in> kitchen self)"
    by (auto simp: filter_empty_conv)
  obtain r where r: "available_loop self [] u = (r, self)"
    using available_loop_frame [of self "[]" u] by (simp add: prod_eq_iff)
  have r': "r = (if \<exists>line\<in>set u. startswith line ''o'' \<and> length (py_split line) < 2
             then Inl IndexError else Inr ?ms)"
    using available_loop_result [of self "[]" u] r by simp
  show ?thesis
  proof (cases "\<exists>line\<in>set u. startswith line ''o'' \<and> length (py_split line) < 2")
    case True
    then have "r = Inl IndexError" using r' by simp
    then show ?thesis using True r by (simp add: available_in_kitchen_def)
  next
    case False
    then have "r = Inr ?ms" using r' by simp
    then have "fst (available_in_kitchen self u) = Inr (if ?ms = [] then PyTrue else Missing ?ms)"
      using r by (simp add: available_in_kitchen_def)
    then show ?thesis using False e by simp
  qed
qed

lemma unit_matches_goal_result:
  "fst (unit_matches_goal self u g st) =
     (if \<exists>line\<in>set u. startswith line ''o'' \<and> length (py_split line) < 2 then Inl IndexError
      else Inr ((\<exists>line\<in>set u. startswith line ''o'' \<and> py_split line ! 1 = g) \<and>
                (\<exists>line\<in>set u. startswith line ''s'' \<and>
                     py_in st (py_join '' '' (drop 1 (py_split line))))))"
  unfolding unit_matches_goal_def by (subst matches_loop_result) simp

lemma available_truthy:
  assumes "fst (available_in_kitchen self u) = Inr v"
  shows "truthy v"
proof -
  let ?P = "\<lambda>line. startswith line ''o'' \<and> py_split line ! 1 \<notin> kitchen self"
  let ?ms = "map (\<lambda>line. py_split line ! 1) (filter ?P u)"
  have "v = PyTrue \<or> (v = Missing ?ms \<and> ?ms \<noteq> [])"
    using assms unfolding available_in_kitchen_result
    by (auto simp: filter_empty_conv split: if_splits)
  then show ?thesis by auto
qed

section \<open>Depth-limited search\<close>

lemma dls_loop_eq: "dls_loop self us g st = (fst (dls_loop self us g st), self)"
  using dls_loop_frame [of self us g st] by (simp add: prod_eq_iff)

lemma dls_loop_Cons:
  "dls_loop self (u # us) g st =
     (case fst (unit_matches_goal self u g st) of
        Inl e \<Rightarrow> (Inl e, self)
      | Inr m \<Rightarrow>
          if m then
            (case fst (available_in_kitchen self u) of
               Inl e \<Rightarrow> (Inl e, self)
             | Inr k \<Rightarrow> if k = PyTrue then (Inr (Some u), self) else dls_loop self us g st)
          else dls_loop self us g st)"
proof -
  obtain r where r: "unit_matches_goal self u g st = (r, self)"
    using unit_matches_goal_eq by blast
  obtain k where k: "available_in_kitchen self u = (k, self)"
    using available_in_kitchen_eq by blast
  show ?thesis by (simp add: r k split: sum.splits)
qed

lemma matches_nonempty: "fst (unit_matches_goal self u g st) = Inr True \<Longrightarrow> u \<noteq> []"
  by (auto simp: unit_matches_goal_def)

lemma dls_loop_Some_nonempty: "fst (dls_loop self us g st) = Inr (Some u) \<Longrightarrow> u \<noteq> []"
proof (induction us)
  case Nil
  then show ?case by simp
next
  case (Cons a us)
  show ?case
  proof (cases "fst (unit_matches_goal self a g st)")
    case (Inl e)
    then show ?thesis using Cons.prems by (simp add: dls_loop_Cons del: dls_loop.simps)
  next
    case (Inr m)
    show ?thesis
    proof (cases m)
      case False
      then show ?thesis using Inr Cons by (simp add: dls_loop_Cons del: dls_loop.simps)
    next
      case True
      then have ne: "a \<noteq> []" using Inr matches_nonempty [of self a g st] by simp
      show ?thesis
      proof (cases "fst (available_in_kitchen self a)")
        case (Inl e)
        then show ?thesis using Inr True Cons.prems
          by (simp add: dls_loop_Cons del: dls_loop.simps)
      next
        case k: (Inr k)
        then show ?thesis using Inr True Cons ne
          by (cases "k = PyTrue") (simp_all add: dls_loop_Cons del: dls_loop.simps)
      qed
    qed
  qed
qed

lemma depth_limited_search_eq:
  "depth_limited_search self g st d = (fst (depth_limited_search self g st d), self)"
proof (cases "d = 0")
  case True
  then show ?thesis by (simp add: depth_limited_search_def)
next
  case False
  show ?thesis
  proof (cases "unit_to_objects self g")
    case None
    then show ?thesis using False by (simp add: depth_limited_search_def)
  next
    case (Some bucket)
    then show ?thesis using False dls_loop_eq [of self bucket g st]
      by (simp add: depth_limited_search_def)
  qed
qed

lemma depth_limited_search_nonzero:
  "d \<noteq> 0 \<Longrightarrow> depth_limited_search self g st d = depth_limited_search self g st 1"
  by (simp add: depth_limited_search_def)

lemma depth_limited_search_truthy:
  assumes "fst (depth_limited_search self g st d) = Inr (Some u)"
  shows "u \<noteq> []"
proof (cases "unit_to_objects self g")
  case None
  then show ?thesis using assms by (simp add: depth_limited_search_def split: if_splits)
next
  case (Some bucket)
  then have "fst (dls_loop self bucket g st) = Inr (Some u)"
    using assms by (simp add: depth_limited_search_def split: if_splits)
  then show ?thesis by (rule dls_loop_Some_nonempty)
qed

section \<open>Iterative deepening\<close>

lemma ids_loop_nonzero:
  "ds \<noteq> [] \<Longrightarrow> \<forall>d\<in>set ds. d \<noteq> 0 \<Longrightarrow>
   ids_loop self g st ds = depth_limited_search self g st 1"
proof (induction ds)
  case Nil
  then show ?case by simp
next
  case (Cons d ds)
  then have "d \<noteq> 0" by simp
  then have d: "depth_limited_search self g st d = depth_limited_search self g st 1"
    by (rule depth_limited_search_nonzero)
  obtain r where r: "depth_limited_search self g st 1 = (r, self)"
    using depth_limited_search_eq by blast
  have step: "ids_loop self g st (d # ds) =
     (case r of Inl e \<Rightarrow> (Inl e, self)
      | Inr result \<Rightarrow> if truthy_result result then (Inr result, self)
                       else ids_loop self g st ds)"
    by (simp add: d r split: sum.splits)
  show ?case
  proof (cases r)
    case (Inl e)
    then show ?thesis using step r by simp
  next
    case (Inr res)
    show ?thesis
    proof (cases res)
      case None
      show ?thesis
      proof (cases ds)
        case Nil
        then show ?thesis using step r Inr None by simp
      next
        case (Cons d' ds')
        then have "ids_loop self g st ds = depth_limited_search self g st 1"
          using Cons.IH Cons.prems by simp
        then show ?thesis using step r Inr None by simp
      qed
    next
      case (Some u)
      then have "u \<noteq> []"
        using depth_limited_search_truthy [of self g st 1 u] r Inr by simp
      then show ?thesis using step r Inr Some by simp
    qed
  qed
qed

lemma py_range_ge2:
  assumes "2 \<le> n"
  shows "\<exists>ds. py_range n = 0 # ds \<and> ds \<noteq> [] \<and> (\<forall>d\<in>set ds. d \<noteq> 0)"
proof -
  have "0 < nat n" using assms by simp
  then have "[0..<nat n] = 0 # [Suc 0..<nat n]"
    by (rule upt_conv_Cons)
  then have "py_range n = 0 # map int [Suc 0..<nat n]"
    by (simp add: py_range_def)
  moreover have "map int [Suc 0..<nat n] \<noteq> []" using assms by simp
  moreover have "\<forall>d\<in>set (map int [Suc 0..<nat n]). d \<noteq> 0" by auto
  ultimately show ?thesis by blast
qed

lemma ids_ge2:
  assumes "2 \<le> max_depth"
  shows "iterative_deepening_search self g st max_depth = depth_limited_search self g st 1"
proof -
  obtain ds where ds: "py_range max_depth = 0 # ds" "ds \<noteq> []" "\<forall>d\<in>set ds. d \<noteq> 0"
    using py_range_ge2 [OF assms] by blast
  have "depth_limited_search self g st 0 = (Inr None, self)"
    by (simp add: depth_limited_search_def)
  then have "ids_loop self g st (0 # ds) = ids_loop self g st ds" by simp
  then show ?thesis
    using ds ids_loop_nonzero [of ds self g st] by (simp add: iterative_deepening_search_def)
qed

section \<open>The A* loop\<close>

lemma ids_loop_eq: "ids_loop self g st ds = (fst (ids_loop self g st ds), self)"
proof (induction ds)
  case Nil
  show ?case by simp
next
  case (Cons d ds)
  obtain r where r: "depth_limited_search self g st d = (r, self)"
    using depth_limited_search_eq by blast
  show ?case
  proof (cases r)
    case (Inl e)
    then show ?thesis using r by simp
  next
    case (Inr res)
    then show ?thesis using r Cons.IH by (cases "truthy_result res") simp_all
  qed
qed

lemma a_star_units_Cons:
  "a_star_units self (u # us) g st =
     (case fst (unit_matches_goal self u g st) of
        Inl e \<Rightarrow> (Inl e, self)
      | Inr m \<Rightarrow>
          if m then
            (case fst (available_in_kitchen self u) of
               Inl e \<Rightarrow> (Inl e, self)
             | Inr k \<Rightarrow>
                 (case index0 u of
                    Inl e \<Rightarrow> (Inl e, self)
                  | Inr first_line \<Rightarrow>
                      (case index1 (py_split first_line) of
                         Inl e \<Rightarrow> (Inl e, self)
                       | Inr key \<Rightarrow>
                           (case one_over (case motion_data self key of
                                             None \<Rightarrow> Finite 1 | Some r \<Rightarrow> r) of
                              Inl e \<Rightarrow> (Inl e, self)
                            | Inr q \<Rightarrow> (Inr (Some u), self)))))
          else a_star_units self us g st)"
proof -
  obtain r where r: "unit_matches_goal self u g st = (r, self)"
    using unit_matches_goal_eq by blast
  obtain k where k: "available_in_kitchen self u = (k, self)"
    using available_in_kitchen_eq by blast
  have t: "truthy v" if "k = Inr v" for v
    using that k available_truthy [of self u v] by simp
  show ?thesis
  proof (cases r)
    case (Inl e)
    then show ?thesis by (simp add: r)
  next
    case rm: (Inr m)
    show ?thesis
    proof (cases k)
      case (Inl e)
      then show ?thesis using rm by (simp add: r k)
    next
      case (Inr v)
      then have "truthy v" by (rule t)
      then show ?thesis using rm Inr by (simp add: r k Let_def cong: sum.case_cong)
    qed
  qed
qed

lemma a_star_units_eq: "a_star_units self us g st = (fst (a_star_units self us g st), self)"
proof (induction us)
  case Nil
  show ?case by simp
next
  case (Cons u us)
  show ?case
    unfolding a_star_units_Cons using Cons.IH
    by (simp split: sum.splits)
qed

lemma a_star_search_unfold:
  "a_star_search self g st =
     (case unit_to_objects self g of
        None \<Rightarrow> (Inr None, self)
      | Some bucket \<Rightarrow> a_star_units self bucket g st)"
proof (cases "unit_to_objects self g")
  case None
  then show ?thesis by (simp add: a_star_search_def)
next
  case (Some bucket)
  obtain r where r: "a_star_units self bucket g st = (r, self)"
    using a_star_units_eq by blast
  show ?thesis using Some r
    by (simp add: a_star_search_def split: sum.splits option.splits)
qed

lemma a_star_search_eq: "a_star_search self g st = (fst (a_star_search self g st), self)"
proof (cases "unit_to_objects self g")
  case None
  then show ?thesis by (simp add: a_star_search_unfold)
next
  case (Some bucket)
  then show ?thesis using a_star_units_eq [of self bucket g st]
    by (simp add: a_star_search_unfold)
qed

lemma usable_loop_eq: "usable_loop self acc us = (fst (usable_loop self acc us), self)"
proof (induction us arbitrary: acc)
  case Nil
  show ?case by simp
next
  case (Cons u us)
  obtain k where k: "available_in_kitchen self u = (k, self)"
    using available_in_kitchen_eq by blast
  show ?case
  proof (cases k)
    case (Inl e)
    then show ?thesis by (simp add: k)
  next
    case (Inr v)
    then show ?thesis using Cons.IH by (cases "eq_True v") (simp_all add: k)
  qed
qed

lemma one_over_nonzero: "r \<noteq> Finite 0 \<Longrightarrow> \<exists>q. one_over r = Inr q"
  by (cases r) auto

lemma a_star_units_motion:
  assumes "\<forall>k. m1 k \<noteq> Some (Finite 0)" and "\<forall>k. m2 k \<noteq> Some (Finite 0)"
  shows "fst (a_star_units (self\<lparr>motion_data := m1\<rparr>) us g st) =
         fst (a_star_units (self\<lparr>motion_data := m2\<rparr>) us g st)"
proof (induction us)
  case Nil
  show ?case by simp
next
  case (Cons u us)
  have rate: "\<exists>q. one_over (case m key of None \<Rightarrow> Finite 1 | Some r \<Rightarrow> r) = Inr q"
    if "\<forall>k. m k \<noteq> Some (Finite 0)" for m :: "string \<rightharpoonup> pyfloat" and key
  proof (rule one_over_nonzero)
    show "(case m key of None \<Rightarrow> Finite 1 | Some r \<Rightarrow> r) \<noteq> Finite 0"
      using that by (cases "m key") auto
  qed
  have step: "a_star_units (self\<lparr>motion_data := m\<rparr>) (u # us) g st =
     (case fst (unit_matches_goal self u g st) of
        Inl e \<Rightarrow> (Inl e, self\<lparr>motion_data := m\<rparr>)
      | Inr b \<Rightarrow>
          if b then
            (case fst (available_in_kitchen self u) of
               Inl e \<Rightarrow> (Inl e, self\<lparr>motion_data := m\<rparr>)
             | Inr k \<Rightarrow>
                 (case index0 u of
                    Inl e \<Rightarrow> (Inl e, self\<lparr>motion_data := m\<rparr>)
                  | Inr first_line \<Rightarrow>
                      (case index1 (py_split first_line) of
                         Inl e \<Rightarrow> (Inl e, self\<lparr>motion_data := m\<rparr>)
                       | Inr key \<Rightarrow> (Inr (Some u), self\<lparr>motion_data := m\<rparr>))))
          else a_star_units (self\<lparr>motion_data := m\<rparr>) us g st)"
    if nz: "\<forall>k. m k \<noteq> Some (Finite 0)" for m :: "string \<rightharpoonup> pyfloat"
  proof -
    have a: "fst (unit_matches_goal (self\<lparr>motion_data := m\<rparr>) u g st) =
             fst (unit_matches_goal self u g st)"
      by (simp only: unit_matches_goal_result)
    have b: "fst (available_in_kitchen (self\<lparr>motion_data := m\<rparr>) u) =
             fst (available_in_kitchen self u)"
      by (simp add: available_in_kitchen_result)
    have c: "(case one_over (case m key of None \<Rightarrow> Finite 1 | Some r \<Rightarrow> r) of
                Inl e \<Rightarrow> (Inl e, s) | Inr q \<Rightarrow> (Inr (Some u), s)) = (Inr (Some u), s)"
      for key and s :: foon
      using rate [OF nz, of key] by auto
    show ?thesis
      unfolding a_star_units_Cons a b
      by (simp add: c split: sum.splits)
  qed
  show ?case
    unfolding step [OF assms(1)] step [OF assms(2)] using Cons.IH
    by (simp split: sum.splits)
qed

section \<open>The example data evaluated\<close>

lemma split_lines:
  "py_split ''o1 onion 1'' = [''o1'', ''onion'', ''1'']"
  "py_split ''s1 whole'' = [''s1'', ''whole'']"
  "py_split ''o2 knife 0'' = [''o2'', ''knife'', ''0'']"
  "py_split ''s2 clean'' = [''s2'', ''clean'']"
  "py_split ''m1 slice'' = [''m1'', ''slice'']"
  "py_split ''o3 onion 0'' = [''o3'', ''onion'', ''0'']"
  "py_split ''s3 ring shaped'' = [''s3'', ''ring'', ''shaped'']"
  by (simp_all add: py_split_def isspace_def)

lemma example_fields:
  "unit_to_objects example_foon ''onion'' = Some [onion_unit, onion_unit]"
  "unit_to_objects example_foon ''knife'' = Some [onion_unit]"
  "unit_to_objects example_foon ''omelette'' = None"
  "kitchen example_foon = {''onion'', ''knife''}"
  "graph example_foon = [onion_unit]"
  "motion_data example_foon ''onion'' = None"
  "unit_to_objects no_onion_foon = unit_to_objects example_foon"
  "kitchen no_onion_foon = {''knife''}"
  "graph no_onion_foon = [onion_unit]"
  "motion_data no_onion_foon = motion_data example_foon"
  "unit_to_objects zero_rate_foon = unit_to_objects example_foon"
  "kitchen zero_rate_foon = {''onion'', ''knife''}"
  "motion_data zero_rate_foon ''onion'' = Some (Finite 0)"
  by (simp_all add: example_foon_def no_onion_foon_def zero_rate_foon_def)

lemma onion_unit_available:
  "kitchen s = {''onion'', ''knife''} \<Longrightarrow> available_in_kitchen s onion_unit = (Inr PyTrue, s)"
  "kitchen s = {''knife''} \<Longrightarrow>
   available_in_kitchen s onion_unit = (Inr (Missing [''onion'', ''onion'']), s)"
  by (simp_all add: available_in_kitchen_def onion_unit_def startswith_def split_lines)

lemma onion_unit_matches:
  "unit_matches_goal s onion_unit ''onion'' ''ring'' = (Inr True, s)"
  "unit_matches_goal s onion_unit ''knife'' ''ring shaped'' = (Inr True, s)"
  "unit_matches_goal s onion_unit ''knife'' ''cooked'' = (Inr False, s)"
  by (simp_all add: unit_matches_goal_def onion_unit_def startswith_def split_lines)

lemma onion_unit_first: "index0 onion_unit = Inr ''o1 onion 1''"
  by (simp add: onion_unit_def)

lemma usable_loop_result:
  "fst (usable_loop self acc us) = Inr r \<Longrightarrow>
   r = acc @ filter (\<lambda>u. fst (available_in_kitchen self u) = Inr PyTrue) us"
proof (induction us arbitrary: acc)
  case Nil
  then show ?case by simp
next
  case (Cons u us)
  obtain k where k: "available_in_kitchen self u = (k, self)"
    using available_in_kitchen_eq by blast
  show ?case
  proof (cases k)
    case (Inl e)
    then show ?thesis using Cons.prems by (simp add: k)
  next
    case (Inr v)
    show ?thesis
    proof (cases v)
      case PyTrue
      then show ?thesis using Inr Cons.prems Cons.IH [of "acc @ [u]"] by (simp add: k)
    next
      case (Missing names)
      then show ?thesis using Inr Cons.prems Cons.IH [of acc] by (simp add: k)
    qed
  qed
qed

lemma ids_loop_all_None:
  "fst (depth_limited_search self g st 1) = Inr None \<Longrightarrow> fst (ids_loop self g st ds) = Inr None"
proof (induction ds)
  case Nil
  show ?case by simp
next
  case (Cons d ds)
  have "fst (depth_limited_search self g st d) = Inr None"
  proof (cases "d = 0")
    case True
    then show ?thesis by (simp add: depth_limited_search_def)
  next
    case False
    then show ?thesis using Cons.prems depth_limited_search_nonzero [of d self g st] by simp
  qed
  then have "depth_limited_search self g st d = (Inr None, self)"
    using depth_limited_search_eq [of self g st d] by simp
  then show ?case using Cons by simp
qed

lemma example_dls:
  "depth_limited_search example_foon ''onion'' ''ring'' 1 = (Inr (Some onion_unit), example_foon)"
  "depth_limited_search no_onion_foon ''onion'' ''ring'' 1 = (Inr None, no_onion_foon)"
  by (simp_all add: depth_limited_search_def dls_loop_Cons example_fields onion_unit_matches
        onion_unit_available del: dls_loop.simps(2))

lemma example_a_star:
  "a_star_search example_foon ''onion'' ''ring'' = (Inr (Some onion_unit), example_foon)"
  "a_star_search no_onion_foon ''onion'' ''ring'' = (Inr (Some onion_unit), no_onion_foon)"
  "a_star_search zero_rate_foon ''onion'' ''ring'' = (Inl ZeroDivisionError, zero_rate_foon)"
  by (simp_all add: a_star_search_unfold a_star_units_Cons example_fields onion_unit_matches
        onion_unit_available onion_unit_first split_lines)

section \<open>The loop of the parser\<close>

lemma closed_refs_snoc:
  "closed_refs (done @ [cur]) = (if cur \<noteq> [] then closed_refs done @ [length done] else closed_refs done)"
  by (simp add: closed_refs_def enumerate_append_eq)

lemma refs_snoc:
  "refs n (done @ [cur]) =
     refs n done @ replicate (length (filter (names_object n) cur)) (length done)"
  by (simp add: refs_def enumerate_append_eq)

lemma loader_of_init: "\<lparr>lists = [[]], units = [], buckets = Map.empty, current_unit = 0\<rparr> = loader_of [] []"
  by (simp add: loader_of_def closed_refs_def refs_def fun_eq_iff)

lemma load_line_delimiter:
  assumes "is_delimiter line"
  shows "load_line (loader_of done cur) line = Inr (loader_of (done @ [cur]) [])"
proof -
  have "refs n ((done @ [cur]) @ [[]]) = refs n (done @ [cur])" for n
    by (subst refs_snoc) simp
  then show ?thesis
    using assms
    by (simp add: load_line_def loader_of_def closed_refs_snoc nth_append del: append_assoc)
qed

lemma load_line_plain:
  assumes "\<not> is_delimiter line" and "\<not> startswith line ''o''"
  shows "load_line (loader_of done cur) line = Inr (loader_of done (cur @ [line]))"
proof -
  have "filter (names_object n) (cur @ [line]) = filter (names_object n) cur" for n
    using assms(2) by (simp add: names_object_def)
  then have "refs n (done @ [cur @ [line]]) = refs n (done @ [cur])" for n
    by (simp add: refs_snoc)
  then show ?thesis
    using assms by (simp add: load_line_def loader_of_def Let_def)
qed

lemma load_line_object:
  assumes "\<not> is_delimiter line" and "startswith line ''o''" and "2 \<le> length (py_split line)"
  shows "load_line (loader_of done cur) line = Inr (loader_of done (cur @ [line]))"
proof -
  let ?name = "py_split line ! 1"
  have i: "index1 (py_split line) = Inr ?name"
    using assms(3) by (simp add: index1_Inr)
  have same: "refs n (done @ [cur @ [line]]) = refs n (done @ [cur])" if "n \<noteq> ?name" for n
    using that by (auto simp: refs_snoc names_object_def)
  have new: "refs ?name (done @ [cur @ [line]]) = refs ?name (done @ [cur]) @ [length done]"
    using assms(2) by (simp add: refs_snoc names_object_def replicate_append_same)
  have b: "(\<lambda>object_name. let r = refs object_name (done @ [cur @ [line]])
                            in if r = [] then None else Some r) =
           (\<lambda>object_name. let r = refs object_name (done @ [cur])
                            in if r = [] then None else Some r)
             (?name \<mapsto> (case (let r = refs ?name (done @ [cur])
                                  in if r = [] then None else Some r) of
                            None \<Rightarrow> [] | Some bucket \<Rightarrow> bucket) @ [length done])"
  proof
    fix n
    show "(let r = refs n (done @ [cur @ [line]]) in if r = [] then None else Some r) =
          ((\<lambda>object_name. let r = refs object_name (done @ [cur])
                            in if r = [] then None else Some r)
             (?name \<mapsto> (case (let r = refs ?name (done @ [cur])
                                  in if r = [] then None else Some r) of
                            None \<Rightarrow> [] | Some bucket \<Rightarrow> bucket) @ [length done])) n"
    proof (cases "n = ?name")
      case True
      then show ?thesis using new by (simp add: Let_def)
    next
      case False
      then show ?thesis using same [OF False] by (simp add: Let_def)
    qed
  qed
  show ?thesis
    using assms(1,2) i
    by (simp add: load_line_def loader_of_def Let_def b [unfolded Let_def])
qed

lemma load_line_malformed:
  assumes "startswith line ''o''" and "length (py_split line) < 2"
  shows "load_line st line = Inl IndexError"
proof -
  have "\<not> is_delimiter line" using assms(1) by (auto simp: is_delimiter_def startswith_def)
  moreover have "index1 (py_split line) = Inl IndexError"
    using assms(2) by (simp add: index1_Inl)
  ultimately show ?thesis using assms(1) by (simp add: load_line_def Let_def)
qed

lemma pieces_nonempty: "pieces ls \<noteq> []"
  by (induction ls) auto

lemma hd_tl_pieces: "hd (pieces ls) # tl (pieces ls) = pieces ls"
  using pieces_nonempty by simp

lemma pieces_snoc_delimiter: "is_delimiter d \<Longrightarrow> pieces (ls @ [d]) = pieces ls @ [[]]"
  using pieces_nonempty by (induction ls) auto

lemma load_line_ok:
  assumes "startswith line ''o'' \<longrightarrow> 2 \<le> length (py_split line)"
  shows "load_line (loader_of done cur) line =
           Inr (if is_delimiter line then loader_of (done @ [cur]) []
                else loader_of done (cur @ [line]))"
proof (cases "is_delimiter line")
  case True
  then show ?thesis by (simp add: load_line_delimiter)
next
  case False
  show ?thesis
  proof (cases "startswith line ''o''")
    case True
    then show ?thesis using False assms by (simp add: load_line_object)
  next
    case no: False
    then show ?thesis using False by (simp add: load_line_plain)
  qed
qed

lemma load_lines_ok:
  assumes "object_lines_ok (map normalize file_lines)"
  shows "\<exists>done' cur'.
           load_lines (loader_of done cur) file_lines = Inr (loader_of done' cur') \<and>
           done' @ [cur'] =
             done @ ((cur @ hd (pieces (map normalize file_lines)))
                       # tl (pieces (map normalize file_lines)))"
  using assms
proof (induction file_lines arbitrary: "done" cur)
  case Nil
  show ?case by simp
next
  case (Cons raw rest)
  let ?l = "normalize raw"
  let ?p = "pieces (map normalize rest)"
  have ok: "startswith ?l ''o'' \<longrightarrow> 2 \<le> length (py_split ?l)"
    and rest: "object_lines_ok (map normalize rest)"
    using Cons.prems by (simp_all add: object_lines_ok_def)
  show ?case
  proof (cases "is_delimiter ?l")
    case True
    obtain d' c' where
      1: "load_lines (loader_of (done @ [cur]) []) rest = Inr (loader_of d' c')" and
      2: "d' @ [c'] = (done @ [cur]) @ (([] @ hd ?p) # tl ?p)"
      using Cons.IH [OF rest, of "done @ [cur]" "[]"] by blast
    have "load_lines (loader_of done cur) (raw # rest) = Inr (loader_of d' c')"
      using True 1 by (simp add: load_line_ok [OF ok])
    moreover have "d' @ [c'] = done @ ((cur @ hd (pieces (map normalize (raw # rest))))
                       # tl (pieces (map normalize (raw # rest))))"
      using True 2 hd_tl_pieces [of "map normalize rest"] by simp
    ultimately show ?thesis by blast
  next
    case False
    obtain d' c' where
      1: "load_lines (loader_of done (cur @ [?l])) rest = Inr (loader_of d' c')" and
      2: "d' @ [c'] = done @ (((cur @ [?l]) @ hd ?p) # tl ?p)"
      using Cons.IH [OF rest, of "done" "cur @ [?l]"] by blast
    have "load_lines (loader_of done cur) (raw # rest) = Inr (loader_of d' c')"
      using False 1 by (simp add: load_line_ok [OF ok])
    moreover have "d' @ [c'] = done @ ((cur @ hd (pieces (map normalize (raw # rest))))
                       # tl (pieces (map normalize (raw # rest))))"
      using False 2 by simp
    ultimately show ?thesis by blast
  qed
qed

lemma load_lines_malformed:
  assumes "\<not> object_lines_ok (map normalize file_lines)"
  shows "load_lines (loader_of done cur) file_lines = Inl IndexError"
  using assms
proof (induction file_lines arbitrary: "done" cur)
  case Nil
  then show ?case by (simp add: object_lines_ok_def)
next
  case (Cons raw rest)
  let ?l = "normalize raw"
  show ?case
  proof (cases "startswith ?l ''o'' \<longrightarrow> 2 \<le> length (py_split ?l)")
    case True
    then have rest: "\<not> object_lines_ok (map normalize rest)"
      using Cons.prems by (simp add: object_lines_ok_def)
    show ?thesis
      using Cons.IH [OF rest] by (simp add: load_line_ok [OF True])
  next
    case False
    then have "load_line (loader_of done cur) ?l = Inl IndexError"
      by (simp add: load_line_malformed)
    then show ?thesis by simp
  qed
qed

lemma resolve_closed:
  "map (\<lambda>a. (P @ L @ R) ! a) (map fst (filter (\<lambda>(a, unit). unit \<noteq> []) (enumerate (length P) L)))
     = filter (\<lambda>unit. unit \<noteq> []) L"
proof (induction L arbitrary: P)
  case Nil
  show ?case by simp
next
  case (Cons x L)
  have "map (\<lambda>a. ((P @ [x]) @ L @ R) ! a)
          (map fst (filter (\<lambda>(a, unit). unit \<noteq> []) (enumerate (length (P @ [x])) L)))
        = filter (\<lambda>unit. unit \<noteq> []) L"
    by (rule Cons.IH)
  then show ?case by (cases "x = []") simp_all
qed

lemma resolve_refs:
  "map (\<lambda>a. (P @ L) ! a) (concat (map (\<lambda>(a, unit). replicate (k unit) a) (enumerate (length P) L)))
     = concat (map (\<lambda>unit. replicate (k unit) unit) L)"
proof (induction L arbitrary: P)
  case Nil
  show ?case by simp
next
  case (Cons x L)
  have "map (\<lambda>a. ((P @ [x]) @ L) ! a)
          (concat (map (\<lambda>(a, unit). replicate (k unit) a) (enumerate (length (P @ [x])) L)))
        = concat (map (\<lambda>unit. replicate (k unit) unit) L)"
    by (rule Cons.IH)
  then show ?case by simp
qed

lemma resolve_units:
  "map (\<lambda>a. (done @ [cur]) ! a) (closed_refs done) = filter (\<lambda>unit. unit \<noteq> []) done"
  using resolve_closed [of "[]" "done" "[cur]"] by (simp add: closed_refs_def)

lemma resolve_bucket: "map (\<lambda>a. L ! a) (refs n L) = spec_bucket n L"
  using resolve_refs [of "[]" L "\<lambda>unit. length (filter (names_object n) unit)"]
  by (simp add: refs_def spec_bucket_def names_object_def [abs_def])

lemma spec_bucket_nonempty_units:
  "spec_bucket n (filter (\<lambda>unit. unit \<noteq> []) L) = spec_bucket n L"
  by (induction L) (auto simp: spec_bucket_def)

section \<open>What the parser returns\<close>

lemma load_foon_result:
  "load_foon file_lines =
     (if object_lines_ok (map normalize file_lines)
      then Inr (filter (\<lambda>unit. unit \<noteq> []) (butlast (pieces (map normalize file_lines))),
                \<lambda>object_name. bucket_entry (spec_bucket object_name (pieces (map normalize file_lines))))
      else Inl IndexError)"
proof (cases "object_lines_ok (map normalize file_lines)")
  case False
  then show ?thesis
    using load_lines_malformed [of file_lines "[]" "[]"]
    by (simp add: load_foon_def loader_of_init)
next
  case True
  let ?p = "pieces (map normalize file_lines)"
  obtain D c where
    1: "load_lines (loader_of [] []) file_lines = Inr (loader_of D c)" and
    2: "D @ [c] = [] @ (([] @ hd ?p) # tl ?p)"
    using load_lines_ok [OF True, of "[]" "[]"] by blast
  have p: "D @ [c] = ?p" using 2 hd_tl_pieces [of "map normalize file_lines"] by simp
  then have D: "D = butlast ?p" by (metis butlast_snoc)
  have u: "map (\<lambda>a. lists (loader_of D c) ! a) (units (loader_of D c)) =
           filter (\<lambda>unit. unit \<noteq> []) (butlast ?p)"
    using resolve_units [of D c] D by (simp add: loader_of_def)
  have b: "map_option (map (\<lambda>a. lists (loader_of D c) ! a)) (buckets (loader_of D c) n) =
           bucket_entry (spec_bucket n ?p)" for n
  proof -
    have r: "map (\<lambda>a. (D @ [c]) ! a) (refs n (D @ [c])) = spec_bucket n ?p"
      using resolve_bucket [of "D @ [c]" n] p by simp
    then have "refs n (D @ [c]) = [] \<longleftrightarrow> spec_bucket n ?p = []"
      by (metis map_is_Nil_conv)
    then show ?thesis using r by (simp add: loader_of_def bucket_entry_def Let_def)
  qed
  show ?thesis
    using True 1 u b by (simp add: load_foon_def loader_of_init)
qed

lemma isspace_not_word: "isspace c \<Longrightarrow> \<not> is_word c"
  by (auto simp: isspace_def is_word_def Let_def)

lemma lower_char_cases:
  "(\<not> is_upper c \<and> lower_char c = c) \<or>
   (is_upper c \<and>
    ((97 \<le> (of_char (lower_char c) :: nat) \<and> (of_char (lower_char c) :: nat) \<le> 122) \<or>
     (224 \<le> (of_char (lower_char c) :: nat) \<and> (of_char (lower_char c) :: nat) \<le> 246) \<or>
     (248 \<le> (of_char (lower_char c) :: nat) \<and> (of_char (lower_char c) :: nat) \<le> 254)))"
proof (cases "is_upper c")
  case False
  then show ?thesis by (simp add: lower_char_def)
next
  case True
  then have r: "(65 \<le> (of_char c :: nat) \<and> (of_char c :: nat) \<le> 90) \<or>
     (192 \<le> (of_char c :: nat) \<and> (of_char c :: nat) \<le> 214) \<or>
     (216 \<le> (of_char c :: nat) \<and> (of_char c :: nat) \<le> 222)"
    by (simp add: is_upper_def Let_def)
  then have "(of_char c :: nat) + 32 < 256" by arith
  then have m: "(of_char (lower_char c) :: nat) = of_char c + 32"
    using True by (simp add: lower_char_def)
  show ?thesis using True r unfolding m by arith
qed

lemma not_upper_lower: "\<not> is_upper (lower_char c)"
  using lower_char_cases [of c]
proof (elim disjE conjE)
  assume "\<not> is_upper c" "lower_char c = c"
  then show ?thesis by simp
next
  assume "97 \<le> (of_char (lower_char c) :: nat)" "(of_char (lower_char c) :: nat) \<le> 122"
  then show ?thesis by (simp add: is_upper_def Let_def)
next
  assume "224 \<le> (of_char (lower_char c) :: nat)" "(of_char (lower_char c) :: nat) \<le> 246"
  then show ?thesis by (simp add: is_upper_def Let_def)
next
  assume "248 \<le> (of_char (lower_char c) :: nat)" "(of_char (lower_char c) :: nat) \<le> 254"
  then show ?thesis by (simp add: is_upper_def Let_def)
qed

lemma lower_char_idem: "lower_char (lower_char c) = lower_char c"
  using not_upper_lower [of c] by (simp add: lower_char_def [of "lower_char c"])

lemma is_word_lower: "is_word c \<Longrightarrow> is_word (lower_char c)"
  using lower_char_cases [of c]
proof (elim disjE conjE)
  assume "is_word c" "lower_char c = c"
  then show ?thesis by simp
next
  assume "97 \<le> (of_char (lower_char c) :: nat)" "(of_char (lower_char c) :: nat) \<le> 122"
  then show ?thesis by (simp add: is_word_def Let_def)
next
  assume "224 \<le> (of_char (lower_char c) :: nat)" "(of_char (lower_char c) :: nat) \<le> 246"
  then show ?thesis by (simp add: is_word_def Let_def)
next
  assume "248 \<le> (of_char (lower_char c) :: nat)" "(of_char (lower_char c) :: nat) \<le> 254"
  then show ?thesis by (simp add: is_word_def Let_def)
qed

lemma upper_not_space: "is_upper c \<Longrightarrow> \<not> isspace c"
  by (auto simp: is_upper_def isspace_def Let_def)

lemma isspace_lower: "isspace (lower_char c) = isspace c"
  using lower_char_cases [of c]
proof (elim disjE conjE)
  assume "lower_char c = c"
  then show ?thesis by simp
next
  assume "is_upper c" "97 \<le> (of_char (lower_char c) :: nat)" "(of_char (lower_char c) :: nat) \<le> 122"
  then show ?thesis using upper_not_space [of c] by (simp add: isspace_def [of "lower_char c"] Let_def)
next
  assume "is_upper c" "224 \<le> (of_char (lower_char c) :: nat)" "(of_char (lower_char c) :: nat) \<le> 246"
  then show ?thesis using upper_not_space [of c] by (simp add: isspace_def [of "lower_char c"] Let_def)
next
  assume "is_upper c" "248 \<le> (of_char (lower_char c) :: nat)" "(of_char (lower_char c) :: nat) \<le> 254"
  then show ?thesis using upper_not_space [of c] by (simp add: isspace_def [of "lower_char c"] Let_def)
qed

lemma isspace_space: "isspace (CHR '' '')"
  by (simp add: isspace_def)

lemma lower_char_space: "lower_char (CHR '' '') = CHR '' ''"
  by (simp add: lower_char_def is_upper_def)

lemma set_sub_spaces:
  "c \<in> set (sub_spaces b cs) \<Longrightarrow> c = CHR '' '' \<or> (c \<in> set cs \<and> \<not> isspace c)"
  by (induction b cs rule: sub_spaces.induct) (auto split: if_splits)

lemma set_py_strip: "c \<in> set (py_strip s) \<Longrightarrow> c \<in> set s"
  unfolding py_strip_def by (metis set_dropWhileD set_rev)

lemma normalize_chars:
  assumes "c \<in> set (normalize line)"
  shows "(is_word c \<or> c = CHR '' '') \<and> lower_char c = c"
proof -
  let ?s = "py_strip (filter (\<lambda>c. is_word c \<or> isspace c) line)"
  from assms have "c = CHR '' '' \<or> (c \<in> set (py_lower ?s) \<and> \<not> isspace c)"
    unfolding normalize_def by (rule set_sub_spaces)
  then show ?thesis
  proof
    assume "c = CHR '' ''"
    then show ?thesis by (simp add: lower_char_space)
  next
    assume a: "c \<in> set (py_lower ?s) \<and> \<not> isspace c"
    then obtain d where d: "d \<in> set ?s" "c = lower_char d"
      by (auto simp: py_lower_def)
    then have "d \<in> set (filter (\<lambda>c. is_word c \<or> isspace c) line)"
      using set_py_strip by blast
    then have "is_word d \<or> isspace d" by simp
    moreover have "\<not> isspace d" using a d isspace_lower by simp
    ultimately have "is_word d" by simp
    then show ?thesis using d is_word_lower lower_char_idem by simp
  qed
qed

lemma sub_spaces_in_run:
  "sub_spaces True cs = [] \<or> hd (sub_spaces True cs) \<noteq> CHR '' ''"
  using isspace_space by (induction cs) auto

lemma sub_spaces_no_double:
  "\<not> py_in [CHR '' '', CHR '' ''] (sub_spaces b cs)"
proof (induction b cs rule: sub_spaces.induct)
  case (1 in_run)
  show ?case by simp
next
  case (2 in_run c cs)
  show ?case
  proof (cases "isspace c")
    case True
    have h: "sub_spaces True cs = [] \<or> hd (sub_spaces True cs) \<noteq> CHR '' ''"
      by (rule sub_spaces_in_run)
    have "\<not> startswith (CHR '' '' # sub_spaces True cs) [CHR '' '', CHR '' '']"
      using h by (cases "sub_spaces True cs") (auto simp: startswith_def)
    then show ?thesis using True 2 by simp
  next
    case False
    then have "c \<noteq> CHR '' ''" using isspace_space by auto
    then have "\<not> startswith (c # sub_spaces False cs) [CHR '' '', CHR '' '']"
      by (simp add: startswith_def)
    then show ?thesis using False 2 by simp
  qed
qed

lemma sub_spaces_Nil: "sub_spaces False cs = [] \<longleftrightarrow> cs = []"
  by (cases cs) auto

lemma py_strip_Nil: "py_strip s = [] \<longleftrightarrow> (\<forall>c\<in>set s. isspace c)"
proof
  assume "py_strip s = []"
  then have "dropWhile isspace (rev (dropWhile isspace s)) = []"
    by (simp add: py_strip_def)
  then have all: "\<forall>c\<in>set (dropWhile isspace s). isspace c"
    by (simp add: dropWhile_eq_Nil_conv)
  have "dropWhile isspace s = []"
  proof (rule ccontr)
    assume ne: "dropWhile isspace s \<noteq> []"
    then have "\<not> isspace (hd (dropWhile isspace s))" by (rule hd_dropWhile)
    moreover have "hd (dropWhile isspace s) \<in> set (dropWhile isspace s)" using ne by simp
    ultimately show False using all by blast
  qed
  then show "\<forall>c\<in>set s. isspace c" by (simp add: dropWhile_eq_Nil_conv)
next
  assume "\<forall>c\<in>set s. isspace c"
  then have d: "dropWhile isspace s = []" by (simp add: dropWhile_eq_Nil_conv)
  show "py_strip s = []" by (simp only: py_strip_def d rev.simps dropWhile.simps)
qed

lemma normalize_delimiter: "is_delimiter (normalize line) \<longleftrightarrow> (\<forall>c\<in>set line. \<not> is_word c)"
proof -
  have bs: "normalize line \<noteq> [CHR 0x5C]"
  proof
    assume "normalize line = [CHR 0x5C]"
    then have "CHR 0x5C \<in> set (normalize line)" by simp
    then have "is_word (CHR 0x5C) \<or> CHR 0x5C = CHR '' ''" using normalize_chars by blast
    then show False by (simp add: is_word_def)
  qed
  have "normalize line = [] \<longleftrightarrow> py_strip (filter (\<lambda>c. is_word c \<or> isspace c) line) = []"
    by (simp add: normalize_def sub_spaces_Nil py_lower_def)
  also have "\<dots> \<longleftrightarrow> (\<forall>c\<in>set line. \<not> is_word c)"
    using isspace_not_word by (auto simp: py_strip_Nil)
  finally show ?thesis using bs by (simp add: is_delimiter_def)
qed

text \<open>
  Stripping and collapsing the whitespace of a string gives its tokens joined by single
  spaces, and lowering commutes with both: a normalized line is the line without the
  characters that are neither word characters nor whitespace, cut into tokens, lowered
  and joined.
\<close>

lemma rstrip_Nil: "rstrip [] = []"
  by (simp add: rstrip_def)

lemma rstrip_Cons:
  "rstrip (c # cs) = (if isspace c \<and> (\<forall>x\<in>set cs. isspace x) then [] else c # rstrip cs)"
  by (simp add: rstrip_def dropWhile_append3 dropWhile_append2 dropWhile_append)

lemma rstrip_all_space: "\<forall>x\<in>set cs. isspace x \<Longrightarrow> rstrip cs = []"
  by (simp add: rstrip_def)

lemma split_from_Nil: "split_from cur cs = [] \<longleftrightarrow> cur = [] \<and> (\<forall>x\<in>set cs. isspace x)"
  by (induction cs arbitrary: cur) auto

lemma join_split:
  "(cur \<noteq> [] \<longrightarrow> py_join '' '' (split_from cur cs) = cur @ sub_spaces False (rstrip cs)) \<and>
   py_join '' '' (split_from [] cs) = sub_spaces True (rstrip cs)"
proof (induction cs arbitrary: cur)
  case Nil
  show ?case by (simp add: rstrip_Nil)
next
  case (Cons c cs)
  show ?case
  proof (cases "isspace c")
    case False
    have 1: "py_join '' '' (split_from (cur @ [c]) cs) = (cur @ [c]) @ sub_spaces False (rstrip cs)"
      using Cons.IH [of "cur @ [c]"] by simp
    have 2: "py_join '' '' (split_from [c] cs) = [c] @ sub_spaces False (rstrip cs)"
      using Cons.IH [of "[c]"] by simp
    show ?thesis using False 1 2 by (simp add: rstrip_Cons)
  next
    case True
    have t: "py_join '' '' (split_from [] cs) = sub_spaces True (rstrip cs)"
      using Cons.IH [of "[]"] by simp
    show ?thesis
    proof (cases "\<forall>x\<in>set cs. isspace x")
      case all: True
      then have "split_from [] cs = []" by (simp add: split_from_Nil)
      then show ?thesis using True all by (simp add: rstrip_Cons)
    next
      case some: False
      then have ne: "split_from [] cs \<noteq> []" by (simp add: split_from_Nil)
      then obtain w ws where ws: "split_from [] cs = w # ws" by (cases "split_from [] cs") auto
      have j: "py_join '' '' (cur # split_from [] cs) = cur @ '' '' @ py_join '' '' (split_from [] cs)"
        by (simp add: ws)
      have r: "rstrip (c # cs) = c # rstrip cs"
        by (subst rstrip_Cons) (use some in auto)
      show ?thesis using True t j by (simp add: r)
    qed
  qed
qed

lemma split_from_leading: "split_from [] cs = split_from [] (dropWhile isspace cs)"
  by (induction cs) auto

lemma sub_spaces_flag:
  "cs = [] \<or> \<not> isspace (hd cs) \<Longrightarrow> sub_spaces True cs = sub_spaces False cs"
  by (cases cs) auto

lemma rstrip_hd: "cs \<noteq> [] \<Longrightarrow> \<not> isspace (hd cs) \<Longrightarrow> rstrip cs \<noteq> [] \<and> hd (rstrip cs) = hd cs"
  by (cases cs) (auto simp: rstrip_Cons)

lemma strip_join_split: "sub_spaces False (py_strip s) = py_join '' '' (py_split s)"
proof -
  let ?d = "dropWhile isspace s"
  have s: "py_strip s = rstrip ?d" by (simp add: py_strip_def rstrip_def)
  have "rstrip ?d = [] \<or> \<not> isspace (hd (rstrip ?d))"
  proof (cases "?d = []")
    case True
    then have "rstrip ?d = []" by (simp only: rstrip_Nil)
    then show ?thesis by (rule disjI1)
  next
    case False
    then have "\<not> isspace (hd ?d)" by (rule hd_dropWhile)
    then show ?thesis using False rstrip_hd [of ?d] by simp
  qed
  then have "sub_spaces False (rstrip ?d) = sub_spaces True (rstrip ?d)"
    using sub_spaces_flag [of "rstrip ?d"] by simp
  also have "\<dots> = py_join '' '' (split_from [] ?d)"
    using join_split [of "[]" ?d] by simp
  also have "\<dots> = py_join '' '' (py_split s)"
    using split_from_leading [of s] by (simp add: py_split_def)
  finally show ?thesis using s by simp
qed

lemma dropWhile_lower: "dropWhile isspace (map lower_char s) = map lower_char (dropWhile isspace s)"
  by (induction s) (auto simp: isspace_lower)

lemma py_strip_lower: "py_strip (py_lower s) = py_lower (py_strip s)"
  by (simp add: py_strip_def py_lower_def rev_map dropWhile_lower)

lemma split_from_lower:
  "split_from (map lower_char cur) (map lower_char cs) = map py_lower (split_from cur cs)"
proof (induction cs arbitrary: cur)
  case Nil
  show ?case by (simp add: py_lower_def)
next
  case (Cons c cs)
  have a: "split_from [] (map lower_char cs) = map py_lower (split_from [] cs)"
    using Cons.IH [of "[]"] by simp
  have b: "split_from (map lower_char cur @ [lower_char c]) (map lower_char cs) =
           map py_lower (split_from (cur @ [c]) cs)"
    using Cons.IH [of "cur @ [c]"] by simp
  show ?case using a b by (simp add: isspace_lower py_lower_def)
qed

lemma py_split_lower: "py_split (py_lower s) = map py_lower (py_split s)"
  using split_from_lower [of "[]" s] by (simp add: py_split_def py_lower_def)

lemma normalize_tokens:
  "normalize line =
     py_join '' '' (map py_lower (py_split (filter (\<lambda>c. is_word c \<or> isspace c) line)))"
proof -
  let ?f = "filter (\<lambda>c. is_word c \<or> isspace c) line"
  have "normalize line = sub_spaces False (py_strip (py_lower ?f))"
    by (simp add: normalize_def py_strip_lower)
  also have "\<dots> = py_join '' '' (py_split (py_lower ?f))"
    by (rule strip_join_split)
  finally show ?thesis by (simp add: py_split_lower)
qed

lemma example_lines:
  "normalize (raw_line [''O1'', ''onion'', ''1'']) = ''o1 onion 1''"
  "normalize (raw_line [''S1'', ''whole'']) = ''s1 whole''"
  "normalize (raw_line [''O2'', ''knife'', ''0'']) = ''o2 knife 0''"
  "normalize (raw_line [''S2'', ''clean'']) = ''s2 clean''"
  "normalize (raw_line [''M1'', ''slice'']) = ''m1 slice''"
  "normalize (raw_line [''O3'', ''onion'', ''0'']) = ''o3 onion 0''"
  "normalize (raw_line [''S3'', ''Ring  Shaped.'']) = ''s3 ring shaped''"
  "normalize (raw_line [''//'']) = []"
  by (simp_all add: raw_line_def normalize_def py_strip_def py_lower_def
        is_word_def isspace_def lower_char_def is_upper_def char_of_eq_iff)

lemma example_normalized: "map normalize example_file = onion_unit @ [[]]"
  unfolding example_file_def onion_unit_def by (simp only: list.map example_lines append.simps)

lemma onion_unit_nonempty: "onion_unit \<noteq> []"
  by (simp add: onion_unit_def)

lemma example_pieces: "pieces (onion_unit @ [[]]) = [onion_unit, []]"
  by (simp add: onion_unit_def is_delimiter_def)

lemma example_ok: "object_lines_ok onion_unit" "object_lines_ok (onion_unit @ [[]])"
  by (simp_all add: object_lines_ok_def onion_unit_def split_lines startswith_def)

lemma example_bucket:
  "spec_bucket n [onion_unit] =
     (if n = ''onion'' then [onion_unit, onion_unit]
      else if n = ''knife'' then [onion_unit] else [])"
proof -
  have "length (filter (\<lambda>line. startswith line ''o'' \<and> py_split line ! 1 = n) onion_unit) =
     (if n = ''onion'' then 2 else if n = ''knife'' then 1 else 0)"
    by (simp add: onion_unit_def split_lines startswith_def)
  then show ?thesis by (simp add: spec_bucket_def numeral_2_eq_2)
qed

lemma ends_with_delimiter_pieces:
  assumes "ends_with_delimiter file_lines"
  shows "last (pieces (map normalize file_lines)) = []"
proof (cases "file_lines = []")
  case True
  then show ?thesis by simp
next
  case False
  then have d: "is_delimiter (normalize (last file_lines))"
    using assms by (simp add: ends_with_delimiter_def)
  have "file_lines = butlast file_lines @ [last file_lines]"
    using False by simp
  then have "map normalize file_lines =
               map normalize (butlast file_lines) @ [normalize (last file_lines)]"
    by (metis list.simps(8,9) map_append)
  then show ?thesis using pieces_snoc_delimiter [OF d] by simp
qed

lemma load_foon_no_final_delimiter:
  "\<exists>idx. load_foon (butlast example_file) = Inr ([], idx) \<and>
         idx ''onion'' = Some [onion_unit, onion_unit]"
proof -
  have n: "map normalize (butlast example_file) = onion_unit"
    by (simp add: map_butlast example_normalized)
  have p: "pieces onion_unit = [onion_unit]"
    by (simp add: onion_unit_def is_delimiter_def)
  have "spec_bucket ''onion'' [onion_unit] = [onion_unit, onion_unit]"
    by (simp add: example_bucket)
  then show ?thesis
    by (simp add: load_foon_result n p example_ok bucket_entry_def)
qed

lemma example_foon_loaded:
  "load_foon example_file = Inr (graph example_foon, unit_to_objects example_foon)"
proof -
  have u: "filter (\<lambda>unit. unit \<noteq> []) (butlast [onion_unit, []]) = [onion_unit]"
    by (simp add: onion_unit_nonempty)
  have b: "spec_bucket n [onion_unit, []] = spec_bucket n [onion_unit]" for n
    by (simp add: spec_bucket_def)
  have i: "(\<lambda>n. bucket_entry (spec_bucket n [onion_unit, []])) = unit_to_objects example_foon"
    by (rule ext) (simp add: b example_bucket bucket_entry_def example_foon_def)
  show ?thesis
    by (simp add: load_foon_result example_normalized example_ok example_pieces
          onion_unit_nonempty i example_fields)
qed

text \<open>Every unit that the parser returns, in the list or in a bucket, has sound object lines.\<close>

lemma set_pieces: "u \<in> set (pieces ls) \<Longrightarrow> set u \<subseteq> set ls"
proof (induction ls arbitrary: u)
  case Nil
  then show ?case by simp
next
  case (Cons l ls)
  show ?case
  proof (cases "is_delimiter l")
    case True
    then show ?thesis using Cons by auto
  next
    case False
    then have "u = l # hd (pieces ls) \<or> u \<in> set (tl (pieces ls))"
      using Cons.prems by simp
    moreover have "hd (pieces ls) \<in> set (pieces ls)"
      using pieces_nonempty by simp
    moreover have "set (tl (pieces ls)) \<subseteq> set (pieces ls)"
      using pieces_nonempty by (metis list.set_sel(2) subsetI)
    ultimately consider "u = l # hd (pieces ls)" "set (hd (pieces ls)) \<subseteq> set ls"
      | "u \<in> set (pieces ls)"
      using Cons.IH by blast
    then show ?thesis
    proof cases
      case 1
      then show ?thesis by auto
    next
      case 2
      then show ?thesis using Cons.IH [of u] by auto
    qed
  qed
qed

lemma set_spec_bucket: "set (spec_bucket n L) \<subseteq> set L"
  by (auto simp: spec_bucket_def)

lemma load_foon_units_ok:
  assumes "load_foon file_lines = Inr (loaded, idx)"
  shows "(\<forall>u\<in>set loaded. object_lines_ok u) \<and>
         (\<forall>n bucket. idx n = Some bucket \<longrightarrow> (\<forall>u\<in>set bucket. object_lines_ok u))"
proof -
  let ?n = "map normalize file_lines"
  have ok: "object_lines_ok ?n"
    using assms by (simp add: load_foon_result split: if_splits)
  have piece: "object_lines_ok u" if "u \<in> set (pieces ?n)" for u
    using that ok set_pieces [of u ?n] by (auto simp: object_lines_ok_def list_all_iff)
  have u: "loaded = filter (\<lambda>unit. unit \<noteq> []) (butlast (pieces ?n))"
    and i: "idx = (\<lambda>object_name. bucket_entry (spec_bucket object_name (pieces ?n)))"
    using assms ok by (simp_all add: load_foon_result)
  have "\<forall>u\<in>set loaded. object_lines_ok u"
    using u piece by (auto dest: in_set_butlastD)
  moreover have "\<forall>u\<in>set bucket. object_lines_ok u" if "idx n = Some bucket" for n bucket
  proof -
    have "bucket = spec_bucket n (pieces ?n)"
      using that i by (simp add: bucket_entry_def split: if_splits)
    then show ?thesis using set_spec_bucket [of n "pieces ?n"] piece by auto
  qed
  ultimately show ?thesis by blast
qed

section \<open>Characters beyond ASCII\<close>

text \<open>
  The no-break space separates tokens, and a capital letter with an accent is a word
  character that \<open>lower\<close> maps to its small letter.
\<close>

lemma latin1_examples:
  "py_split (''o1'' @ [CHR 0xA0] @ ''onion'') = [''o1'', ''onion'']"
  "fst (available_in_kitchen no_onion_foon [''o1'' @ [CHR 0xA0] @ ''onion'']) =
     Inr (Missing [''onion''])"
  "fst (unit_matches_goal example_foon
          [''o1'' @ [CHR 0xA0] @ ''onion'', ''s1 ring'' @ [CHR 0x85] @ ''shaped'']
          ''onion'' ''ring shaped'') = Inr True"
  "normalize ([CHR 0xC9] @ ''1'' @ [CHR 0xA0] @ ''Jalape'' @ [CHR 0xD1] @ ''o!'' @ [CHR 0x0A]) =
     [CHR 0xE9] @ ''1 jalape'' @ [CHR 0xF1] @ ''o''"
  by (simp_all add: available_in_kitchen_def unit_matches_goal_def example_fields startswith_def
        py_split_def normalize_def py_strip_def py_lower_def is_word_def isspace_def
        lower_char_def is_upper_def char_of_eq_iff)

section \<open>A* does not look at the kitchen\<close>

text \<open>
  The availability result is only tested for its truth value, and it is never falsy: the
  result of \<open>a_star_search\<close> is the same in every kitchen.
\<close>

lemma available_in_kitchen_shape:
  "(\<not> object_lines_ok u \<and> fst (available_in_kitchen self u) = Inl IndexError) \<or>
   (object_lines_ok u \<and> (\<exists>v. fst (available_in_kitchen self u) = Inr v))"
proof (cases "\<exists>line\<in>set u. startswith line ''o'' \<and> length (py_split line) < 2")
  case True
  then have "fst (available_in_kitchen self u) = Inl IndexError"
    by (subst available_in_kitchen_result) (rule if_P)
  then show ?thesis using True by (simp add: object_lines_ok_iff)
next
  case False
  then have "\<exists>v. fst (available_in_kitchen self u) = Inr v"
    by (subst available_in_kitchen_result, subst if_not_P [OF False]) auto
  then show ?thesis using False by (simp add: object_lines_ok_iff)
qed

lemma a_star_units_ignores_kitchen:
  "fst (a_star_units (self\<lparr>kitchen := K\<rparr>) us g st) = fst (a_star_units self us g st)"
proof (induction us)
  case Nil
  show ?case by simp
next
  case (Cons u us)
  have m: "fst (unit_matches_goal (self\<lparr>kitchen := K\<rparr>) u g st) =
           fst (unit_matches_goal self u g st)"
    by (simp only: unit_matches_goal_result)
  consider (bad) "fst (available_in_kitchen (self\<lparr>kitchen := K\<rparr>) u) = Inl IndexError"
      "fst (available_in_kitchen self u) = Inl IndexError"
    | (good) v w where "fst (available_in_kitchen (self\<lparr>kitchen := K\<rparr>) u) = Inr v"
      "fst (available_in_kitchen self u) = Inr w"
    using available_in_kitchen_shape [of u "self\<lparr>kitchen := K\<rparr>"]
      available_in_kitchen_shape [of u self] by blast
  then show ?case
  proof cases
    case bad
    then show ?thesis
      unfolding a_star_units_Cons m using Cons.IH by (simp split: sum.splits)
  next
    case good
    then show ?thesis
      unfolding a_star_units_Cons m using Cons.IH by (simp split: sum.splits)
  qed
qed

lemma a_star_ignores_kitchen:
  "fst (a_star_search (self\<lparr>kitchen := K\<rparr>) g st) = fst (a_star_search self g st)"
  by (cases "unit_to_objects self g")
     (simp_all add: a_star_search_unfold a_star_units_ignores_kitchen)

section \<open>The claims\<close>

subsection \<open>C2: the availability check\<close>

text \<open>
  C2, as amended. For every unit whose lines starting with \<open>o\<close> all have at least two
  tokens, \<open>available_in_kitchen\<close> returns \<open>True\<close> if and only if the second token of
  every such line is in the kitchen set, and otherwise it returns exactly the list of the
  missing names, in the order of their lines. On a unit that has a line starting with
  \<open>o\<close> with a single token, \<open>line.split()[1]\<close> raises \<open>IndexError\<close>. The units that
  \<open>load_foon\<close> returns all satisfy the condition (\<open>load_foon_units_ok\<close>).
\<close>

theorem available_in_kitchen_spec:
  "(object_lines_ok u \<longrightarrow>
      (fst (available_in_kitchen self u) = Inr PyTrue \<longleftrightarrow>
         (\<forall>line\<in>set u. startswith line ''o'' \<longrightarrow> py_split line ! 1 \<in> kitchen self)) \<and>
      (fst (available_in_kitchen self u) \<noteq> Inr PyTrue \<longrightarrow>
         fst (available_in_kitchen self u) =
           Inr (Missing (map (\<lambda>line. py_split line ! 1)
                  (filter (\<lambda>line. startswith line ''o'' \<and> py_split line ! 1 \<notin> kitchen self) u)))))
   \<and> (\<not> object_lines_ok u \<longrightarrow>
        fst (available_in_kitchen self u) = Inl IndexError)"
proof (cases "\<exists>line\<in>set u. startswith line ''o'' \<and> length (py_split line) < 2")
  case True
  then have "fst (available_in_kitchen self u) = Inl IndexError"
    by (subst available_in_kitchen_result) (rule if_P)
  moreover have "\<not> object_lines_ok u"
    using True by (simp add: object_lines_ok_iff)
  ultimately show ?thesis by simp
next
  case False
  then have wf: "object_lines_ok u"
    by (simp add: object_lines_ok_iff)
  show ?thesis
  proof (cases "\<forall>line\<in>set u. startswith line ''o'' \<longrightarrow> py_split line ! 1 \<in> kitchen self")
    case True
    have "fst (available_in_kitchen self u) = Inr PyTrue"
      by (subst available_in_kitchen_result, subst if_not_P [OF False], rule if_P [OF True])
    then show ?thesis using wf True by simp
  next
    case nall: False
    have "fst (available_in_kitchen self u) =
           Inr (Missing (map (\<lambda>line. py_split line ! 1)
                  (filter (\<lambda>line. startswith line ''o'' \<and> py_split line ! 1 \<notin> kitchen self) u)))"
      by (subst available_in_kitchen_result, subst if_not_P [OF False], rule if_not_P [OF nall])
    then show ?thesis using wf nall by simp
  qed
qed

text \<open>The example unit in a kitchen that has everything, and in one without onions.\<close>

theorem available_in_kitchen_spec_witness:
  "object_lines_ok onion_unit \<and>
   fst (available_in_kitchen example_foon onion_unit) = Inr PyTrue \<and>
   fst (available_in_kitchen no_onion_foon onion_unit) = Inr (Missing [''onion'', ''onion''])"
proof -
  have wf: "object_lines_ok onion_unit"
    by (simp add: object_lines_ok_def onion_unit_def split_lines startswith_def)
  have a: "\<forall>line\<in>set onion_unit. startswith line ''o'' \<longrightarrow> py_split line ! 1 \<in> kitchen example_foon"
    by (simp add: onion_unit_def split_lines example_fields startswith_def)
  have b: "\<not> (\<forall>line\<in>set onion_unit. startswith line ''o'' \<longrightarrow> py_split line ! 1 \<in> kitchen no_onion_foon)"
    by (simp add: onion_unit_def split_lines example_fields startswith_def)
  have c: "map (\<lambda>line. py_split line ! 1)
             (filter (\<lambda>line. startswith line ''o'' \<and> py_split line ! 1 \<notin> kitchen no_onion_foon)
                onion_unit) = [''onion'', ''onion'']"
    by (simp add: onion_unit_def split_lines example_fields startswith_def)
  have "fst (available_in_kitchen example_foon onion_unit) = Inr PyTrue"
    using available_in_kitchen_spec [of onion_unit example_foon] wf a by blast
  moreover have "fst (available_in_kitchen no_onion_foon onion_unit) = Inr (Missing [''onion'', ''onion''])"
    using available_in_kitchen_spec [of onion_unit no_onion_foon] wf b c by simp
  ultimately show ?thesis using wf by blast
qed

text \<open>
  As stated for every unit, C2 fails: on the unit whose only line is \<open>o\<close> the method
  returns neither \<open>True\<close> nor a list.
\<close>

theorem available_in_kitchen_counterexample:
  "fst (available_in_kitchen example_foon [''o'']) = Inl IndexError"
  by (simp add: available_in_kitchen_def startswith_def py_split_def isspace_def)

subsection \<open>C5: the goal matcher\<close>

text \<open>
  C5, as amended. For every unit whose lines starting with \<open>o\<close> all have at least two
  tokens, \<open>unit_matches_goal\<close> returns true if and only if some line starting with \<open>o\<close>
  has the goal object as its second token and some line starting with \<open>s\<close> has the goal
  state as a substring of its remainder (the tokens after the first, joined by one
  space); the two lines are found independently of each other. On a unit that has a line
  starting with \<open>o\<close> with a single token the method raises \<open>IndexError\<close>.
\<close>

theorem unit_matches_goal_spec:
  "(object_lines_ok u \<longrightarrow>
      fst (unit_matches_goal self u goal_object goal_state) =
        Inr ((\<exists>line\<in>set u. startswith line ''o'' \<and> py_split line ! 1 = goal_object) \<and>
             (\<exists>line\<in>set u. startswith line ''s'' \<and>
                (\<exists>before after.
                   py_join '' '' (drop 1 (py_split line)) = before @ goal_state @ after))))
   \<and> (\<not> object_lines_ok u \<longrightarrow>
        fst (unit_matches_goal self u goal_object goal_state) = Inl IndexError)"
proof (cases "\<exists>line\<in>set u. startswith line ''o'' \<and> length (py_split line) < 2")
  case True
  then have "fst (unit_matches_goal self u goal_object goal_state) = Inl IndexError"
    by (subst unit_matches_goal_result) (rule if_P)
  moreover have "\<not> object_lines_ok u"
    using True by (simp add: object_lines_ok_iff)
  ultimately show ?thesis by simp
next
  case False
  then have wf: "object_lines_ok u"
    by (simp add: object_lines_ok_iff)
  have "fst (unit_matches_goal self u goal_object goal_state) =
     Inr ((\<exists>line\<in>set u. startswith line ''o'' \<and> py_split line ! 1 = goal_object) \<and>
          (\<exists>line\<in>set u. startswith line ''s'' \<and>
               py_in goal_state (py_join '' '' (drop 1 (py_split line)))))"
    by (subst unit_matches_goal_result) (rule if_not_P [OF False])
  then show ?thesis using wf by (simp add: py_in_iff)
qed

text \<open>
  No positional alignment: in the example unit the knife is \<open>clean\<close> and the onion is
  \<open>ring shaped\<close>, and the goal (knife, ring shaped) matches.
\<close>

theorem unit_matches_goal_spec_witness:
  "object_lines_ok onion_unit \<and>
   startswith (onion_unit ! 2) ''o'' \<and> py_split (onion_unit ! 2) ! 1 = ''knife'' \<and>
   startswith (onion_unit ! 6) ''s'' \<and>
   py_join '' '' (drop 1 (py_split (onion_unit ! 6))) = [] @ ''ring shaped'' @ [] \<and>
   fst (unit_matches_goal example_foon onion_unit ''knife'' ''ring shaped'') = Inr True"
proof -
  have wf: "object_lines_ok onion_unit"
    by (simp add: object_lines_ok_def onion_unit_def split_lines startswith_def)
  have o: "startswith (onion_unit ! 2) ''o''" "py_split (onion_unit ! 2) ! 1 = ''knife''"
    by (simp_all add: onion_unit_def split_lines startswith_def)
  have s: "startswith (onion_unit ! 6) ''s''"
    "py_join '' '' (drop 1 (py_split (onion_unit ! 6))) = [] @ ''ring shaped'' @ []"
    by (simp_all add: onion_unit_def split_lines startswith_def)
  have mem: "onion_unit ! 2 \<in> set onion_unit" "onion_unit ! 6 \<in> set onion_unit"
    by (simp_all add: onion_unit_def)
  have A: "\<exists>line\<in>set onion_unit. startswith line ''o'' \<and> py_split line ! 1 = ''knife''"
    using o mem by blast
  have B: "\<exists>line\<in>set onion_unit. startswith line ''s'' \<and>
                (\<exists>before after.
                   py_join '' '' (drop 1 (py_split line)) = before @ ''ring shaped'' @ after)"
    using s mem by blast
  have "fst (unit_matches_goal example_foon onion_unit ''knife'' ''ring shaped'') = Inr True"
    using unit_matches_goal_spec [of onion_unit example_foon "''knife''" "''ring shaped''"] wf A B
    by simp
  then show ?thesis using wf o s by blast
qed

text \<open>
  As stated for every unit, C5 fails: both conditions hold of the unit below, and the
  method raises on its last line instead of returning true.
\<close>

theorem unit_matches_goal_counterexample:
  "startswith ''o1 onion'' ''o'' \<and> py_split ''o1 onion'' ! 1 = ''onion'' \<and>
   startswith ''s1 ring'' ''s'' \<and> py_in ''ring'' (py_join '' '' (drop 1 (py_split ''s1 ring''))) \<and>
   fst (unit_matches_goal example_foon [''o1 onion'', ''s1 ring'', ''o''] ''onion'' ''ring'') =
     Inl IndexError"
  by (simp add: unit_matches_goal_def startswith_def py_split_def isspace_def)

subsection \<open>C4: the availability result as a condition\<close>

text \<open>
  C4, as amended. Whenever \<open>available_in_kitchen\<close> returns, its value is never falsy: it is
  \<open>True\<close> or a non-empty list of missing names. A unit with no line starting with \<open>o\<close>
  yields \<open>True\<close>. Taken as a condition by its truth value, as \<open>a_star_search\<close> takes it,
  the value is always true. \<open>test_script\<close> does not take it so: it compares the value with
  \<open>== True\<close>, which holds only of \<open>True\<close> itself, and its filter keeps exactly the units
  of \<open>graph\<close> on which the check returns \<open>True\<close>.
\<close>

theorem available_never_falsy:
  "(\<forall>v. fst (available_in_kitchen self u) = Inr v \<longrightarrow>
        truthy v \<and> (v = PyTrue \<or> (\<exists>names. names \<noteq> [] \<and> v = Missing names))) \<and>
   ((\<forall>line\<in>set u. \<not> startswith line ''o'') \<longrightarrow>
        fst (available_in_kitchen self u) = Inr PyTrue) \<and>
   (\<forall>v. fst (available_in_kitchen self u) = Inr v \<longrightarrow> (eq_True v \<longleftrightarrow> v = PyTrue)) \<and>
   (\<forall>usable_units. fst (usable_units_of self) = Inr usable_units \<longrightarrow>
        usable_units =
          filter (\<lambda>unit. fst (available_in_kitchen self unit) = Inr PyTrue) (graph self))"
proof -
  have a: "truthy v \<and> (v = PyTrue \<or> (\<exists>names. names \<noteq> [] \<and> v = Missing names))"
    if "fst (available_in_kitchen self u) = Inr v" for v
  proof -
    have "truthy v" using that by (rule available_truthy)
    then show ?thesis by (cases v) auto
  qed
  have b: "fst (available_in_kitchen self u) = Inr PyTrue"
    if "\<forall>line\<in>set u. \<not> startswith line ''o''"
    using that by (subst available_in_kitchen_result) auto
  have c: "eq_True v \<longleftrightarrow> v = PyTrue" for v
    by (cases v) auto
  have d: "usable_units =
          filter (\<lambda>unit. fst (available_in_kitchen self unit) = Inr PyTrue) (graph self)"
    if "fst (usable_units_of self) = Inr usable_units" for usable_units
    using that usable_loop_result [of self "[]" "graph self" usable_units]
    by (simp add: usable_units_of_def)
  show ?thesis using a b c d by blast
qed

theorem available_never_falsy_witness:
  "fst (available_in_kitchen no_onion_foon onion_unit) = Inr (Missing [''onion'', ''onion'']) \<and>
   truthy (Missing [''onion'', ''onion'']) \<and>
   list_all (\<lambda>line. \<not> startswith line ''o'') [''m1 slice'', ''s1 whole''] \<and>
   fst (available_in_kitchen no_onion_foon [''m1 slice'', ''s1 whole'']) = Inr PyTrue \<and>
   fst (usable_units_of example_foon) = Inr [onion_unit] \<and>
   filter (\<lambda>unit. fst (available_in_kitchen example_foon unit) = Inr PyTrue)
     (graph example_foon) = [onion_unit]"
proof -
  have m: "fst (available_in_kitchen no_onion_foon onion_unit) = Inr (Missing [''onion'', ''onion''])"
    by (simp add: onion_unit_available example_fields)
  have t: "truthy (Missing [''onion'', ''onion''])"
    using available_never_falsy [of no_onion_foon onion_unit] m by blast
  have n: "\<forall>line\<in>set [''m1 slice'', ''s1 whole'']. \<not> startswith line ''o''"
    by (simp add: startswith_def)
  have p: "fst (available_in_kitchen no_onion_foon [''m1 slice'', ''s1 whole'']) = Inr PyTrue"
    using available_never_falsy [of no_onion_foon "[''m1 slice'', ''s1 whole'']"] n by blast
  have u: "fst (usable_units_of example_foon) = Inr [onion_unit]"
    by (simp add: usable_units_of_def example_fields onion_unit_available)
  have f: "filter (\<lambda>unit. fst (available_in_kitchen example_foon unit) = Inr PyTrue)
     (graph example_foon) = [onion_unit]"
    using available_never_falsy [of example_foon onion_unit] u by simp
  show ?thesis using m t n p u f by (simp add: list_all_iff)
qed

text \<open>
  The condition of \<open>test_script\<close> is false on the example unit in the kitchen without
  onions, and the unit is left out of \<open>usable_units\<close>.
\<close>

theorem test_script_condition_counterexample:
  "fst (available_in_kitchen no_onion_foon onion_unit) = Inr (Missing [''onion'', ''onion'']) \<and>
   \<not> eq_True (Missing [''onion'', ''onion'']) \<and>
   graph no_onion_foon = [onion_unit] \<and>
   fst (usable_units_of no_onion_foon) = Inr []"
  by (simp add: usable_units_of_def example_fields onion_unit_available)

subsection \<open>C6: the depth limit\<close>

text \<open>
  C6. \<open>depth_limited_search\<close> returns the same result for every depth of at least 1, and
  \<open>None\<close> at depth 0. Hence \<open>iterative_deepening_search\<close> with a \<open>max_depth\<close> of at
  least 2 returns exactly what \<open>depth_limited_search\<close> returns at depth 1; and when that
  is \<open>None\<close>, it returns \<open>None\<close> after the \<open>max_depth\<close> iterations of \<open>range(max_depth)\<close>.
\<close>

theorem depth_is_irrelevant:
  "(1 \<le> depth \<longrightarrow>
      depth_limited_search self goal_object goal_state depth =
      depth_limited_search self goal_object goal_state 1) \<and>
   depth_limited_search self goal_object goal_state 0 = (Inr None, self) \<and>
   (2 \<le> max_depth \<longrightarrow>
      iterative_deepening_search self goal_object goal_state max_depth =
      depth_limited_search self goal_object goal_state 1) \<and>
   (fst (depth_limited_search self goal_object goal_state 1) = Inr None \<longrightarrow>
      fst (iterative_deepening_search self goal_object goal_state max_depth) = Inr None \<and>
      length (py_range max_depth) = nat max_depth)"
proof -
  have a: "1 \<le> depth \<longrightarrow>
      depth_limited_search self goal_object goal_state depth =
      depth_limited_search self goal_object goal_state 1"
    using depth_limited_search_nonzero [of depth self goal_object goal_state] by simp
  have b: "depth_limited_search self goal_object goal_state 0 = (Inr None, self)"
    by (simp add: depth_limited_search_def)
  have c: "2 \<le> max_depth \<longrightarrow>
      iterative_deepening_search self goal_object goal_state max_depth =
      depth_limited_search self goal_object goal_state 1"
    using ids_ge2 by blast
  have d: "fst (depth_limited_search self goal_object goal_state 1) = Inr None \<longrightarrow>
      fst (iterative_deepening_search self goal_object goal_state max_depth) = Inr None"
    using ids_loop_all_None by (simp add: iterative_deepening_search_def)
  have e: "length (py_range max_depth) = nat max_depth"
    by (simp add: py_range_def)
  show ?thesis using a b c d e by blast
qed

theorem depth_is_irrelevant_witness:
  "(1::int) \<le> 7 \<and>
   depth_limited_search example_foon ''onion'' ''ring'' 7 = (Inr (Some onion_unit), example_foon) \<and>
   (2::int) \<le> 40 \<and>
   iterative_deepening_search example_foon ''onion'' ''ring'' 40 =
     (Inr (Some onion_unit), example_foon) \<and>
   fst (depth_limited_search no_onion_foon ''onion'' ''ring'' 1) = Inr None \<and>
   fst (iterative_deepening_search no_onion_foon ''onion'' ''ring'' 40) = Inr None \<and>
   length (py_range 40) = 40"
  using depth_is_irrelevant [of 7 example_foon "''onion''" "''ring''" 40]
    depth_is_irrelevant [of 7 no_onion_foon "''onion''" "''ring''" 40]
  by (simp add: example_dls)

subsection \<open>C7: unknown goal objects\<close>

text \<open>
  C7. For a goal object that is not a key of the unit index, \<open>depth_limited_search\<close> (at
  any depth) and \<open>a_star_search\<close> return \<open>None\<close>; neither raises.
\<close>

theorem unknown_goal_object:
  assumes "goal_object \<notin> dom (unit_to_objects self)"
  shows "depth_limited_search self goal_object goal_state depth = (Inr None, self) \<and>
         a_star_search self goal_object goal_state = (Inr None, self)"
proof -
  have n: "unit_to_objects self goal_object = None" using assms by (simp add: domIff)
  have "depth_limited_search self goal_object goal_state depth = (Inr None, self)"
    using n by (simp add: depth_limited_search_def)
  moreover have "a_star_search self goal_object goal_state = (Inr None, self)"
    using n by (simp add: a_star_search_def)
  ultimately show ?thesis by simp
qed

theorem unknown_goal_object_witness:
  "''omelette'' \<notin> dom (unit_to_objects example_foon) \<and>
   depth_limited_search example_foon ''omelette'' ''cooked'' 3 = (Inr None, example_foon) \<and>
   a_star_search example_foon ''omelette'' ''cooked'' = (Inr None, example_foon)"
proof -
  have d: "''omelette'' \<notin> dom (unit_to_objects example_foon)"
    by (simp add: domIff example_fields)
  show ?thesis using d unknown_goal_object [OF d, of "''cooked''" 3] by simp
qed

subsection \<open>C8: the motion table\<close>

text \<open>
  C8, as amended. For every goal and every two motion tables that hold no success rate
  equal to zero, \<open>a_star_search\<close> gives the same result (the same unit, \<open>None\<close>, or the
  same exception) under either table.
\<close>

theorem a_star_motion_independent:
  assumes "\<forall>motion. table1 motion \<noteq> Some (Finite 0)"
    and "\<forall>motion. table2 motion \<noteq> Some (Finite 0)"
  shows "fst (a_star_search (self\<lparr>motion_data := table1\<rparr>) goal_object goal_state) =
         fst (a_star_search (self\<lparr>motion_data := table2\<rparr>) goal_object goal_state)"
proof (cases "unit_to_objects self goal_object")
  case None
  then show ?thesis by (simp add: a_star_search_unfold)
next
  case (Some bucket)
  then show ?thesis
    using a_star_units_motion [OF assms, of self bucket goal_object goal_state]
    by (simp add: a_star_search_unfold)
qed

theorem a_star_motion_independent_witness:
  "(\<forall>motion. (Map.empty :: string \<rightharpoonup> pyfloat) motion \<noteq> Some (Finite 0)) \<and>
   (\<forall>motion. [''slice'' \<mapsto> Finite (9 / 10), ''onion'' \<mapsto> PosInf] motion \<noteq> Some (Finite 0)) \<and>
   fst (a_star_search (example_foon\<lparr>motion_data := Map.empty\<rparr>) ''onion'' ''ring'') =
   fst (a_star_search
          (example_foon\<lparr>motion_data := [''slice'' \<mapsto> Finite (9 / 10), ''onion'' \<mapsto> PosInf]\<rparr>)
          ''onion'' ''ring'')"
proof -
  have a: "\<forall>motion. (Map.empty :: string \<rightharpoonup> pyfloat) motion \<noteq> Some (Finite 0)"
    by simp
  have b: "\<forall>motion. [''slice'' \<mapsto> Finite (9 / 10), ''onion'' \<mapsto> PosInf] motion \<noteq> Some (Finite 0)"
    by simp
  show ?thesis
    using a b a_star_motion_independent [OF a b, of example_foon "''onion''" "''ring''"]
    by blast
qed

text \<open>
  As stated for every two tables, C8 fails: the rate looked up under the second token
  of the unit's first line divides 1, and a table that maps \<open>onion\<close> to zero turns the
  result into \<open>ZeroDivisionError\<close>.
\<close>

theorem a_star_zero_rate_counterexample:
  "zero_rate_foon = example_foon\<lparr>motion_data := [''onion'' \<mapsto> Finite 0]\<rparr> \<and>
   fst (a_star_search example_foon ''onion'' ''ring'') = Inr (Some onion_unit) \<and>
   fst (a_star_search zero_rate_foon ''onion'' ''ring'') = Inl ZeroDivisionError"
  by (simp add: example_a_star zero_rate_foon_def [symmetric])

subsection \<open>C9: nothing is mutated\<close>

text \<open>
  C9. Each of \<open>iterative_deepening_search\<close>, \<open>depth_limited_search\<close>, \<open>a_star_search\<close>,
  \<open>unit_matches_goal\<close> and \<open>available_in_kitchen\<close> leaves the loaded state (the units,
  the index, the kitchen set and the motion table) as it found it, whether it returns or
  raises.
\<close>

theorem nothing_is_mutated:
  "snd (iterative_deepening_search self goal_object goal_state max_depth) = self \<and>
   snd (depth_limited_search self goal_object goal_state depth) = self \<and>
   snd (a_star_search self goal_object goal_state) = self \<and>
   snd (unit_matches_goal self u goal_object goal_state) = self \<and>
   snd (available_in_kitchen self u) = self"
proof -
  have "snd (iterative_deepening_search self goal_object goal_state max_depth) = self"
    using ids_loop_eq [of self goal_object goal_state "py_range max_depth"]
    by (simp add: iterative_deepening_search_def prod_eq_iff)
  moreover have "snd (depth_limited_search self goal_object goal_state depth) = self"
    using depth_limited_search_eq [of self goal_object goal_state depth] by (simp add: prod_eq_iff)
  moreover have "snd (a_star_search self goal_object goal_state) = self"
    using a_star_search_eq [of self goal_object goal_state] by (simp add: prod_eq_iff)
  ultimately show ?thesis
    using unit_matches_goal_frame available_in_kitchen_frame by simp
qed

theorem nothing_is_mutated_witness:
  "snd (iterative_deepening_search example_foon ''onion'' ''ring'' 40) = example_foon \<and>
   snd (depth_limited_search example_foon ''onion'' ''ring'' 1) = example_foon \<and>
   snd (a_star_search zero_rate_foon ''onion'' ''ring'') = zero_rate_foon \<and>
   snd (unit_matches_goal example_foon onion_unit ''onion'' ''ring'') = example_foon \<and>
   snd (available_in_kitchen no_onion_foon [''o'']) = no_onion_foon"
  using nothing_is_mutated [of example_foon "''onion''" "''ring''" 40 1 onion_unit]
    nothing_is_mutated [of zero_rate_foon "''onion''" "''ring''" 40 1 onion_unit]
    nothing_is_mutated [of no_onion_foon "''onion''" "''ring''" 40 1 "[''o'']"]
  by simp

subsection \<open>C1: iterative deepening against A*\<close>

text \<open>
  C1 says that \<open>a_star_search\<close> and \<open>iterative_deepening_search\<close> return the same unit.
  In the kitchen without onions the only unit matching (onion, ring) misses an object:
  iterative deepening returns \<open>None\<close>, A* returns the unit.
\<close>

theorem ids_and_a_star_differ:
  "iterative_deepening_search no_onion_foon ''onion'' ''ring'' 40 = (Inr None, no_onion_foon) \<and>
   a_star_search no_onion_foon ''onion'' ''ring'' = (Inr (Some onion_unit), no_onion_foon)"
  using ids_ge2 [of 40 no_onion_foon "''onion''" "''ring''"]
  by (simp add: example_dls example_a_star)

subsection \<open>C3: what A* returns\<close>

text \<open>
  C3 says that \<open>a_star_search\<close> returns the first unit of the bucket that matches the goal
  and is fully available, and \<open>None\<close> if there is none. In the kitchen without onions no
  unit of the bucket is fully available, and the method returns the matching unit whose
  availability result is the list of missing names. (In general the kitchen has no
  influence on the result, \<open>a_star_ignores_kitchen\<close>.)
\<close>

theorem a_star_returns_unavailable_unit:
  "unit_to_objects no_onion_foon ''onion'' = Some [onion_unit, onion_unit] \<and>
   fst (unit_matches_goal no_onion_foon onion_unit ''onion'' ''ring'') = Inr True \<and>
   fst (available_in_kitchen no_onion_foon onion_unit) = Inr (Missing [''onion'', ''onion'']) \<and>
   fst (a_star_search no_onion_foon ''onion'' ''ring'') = Inr (Some onion_unit)"
  by (simp add: example_a_star example_fields onion_unit_matches onion_unit_available)

subsection \<open>C10: the parser\<close>

text \<open>
  C10, as amended. Normalizing a line deletes every character that is neither a word
  character (letter, digit, underscore) nor whitespace, cuts what is left into tokens
  at the whitespace, lowers them and joins them with single spaces; so a normalized
  line has only word characters and single spaces, no capital letter and no two spaces
  in a row, and the delimiter lines are exactly the lines without a word character
  (blank lines, lines of backslashes or of slashes). For every input file in which
  every normalized line that starts with \<open>o\<close> has at least two tokens, the parser
  returns a list of units and an index such that: no unit is empty; the units are, in
  order, groups of consecutive normalized lines that are not delimiters (the list is an
  initial part of the list of all such groups, and it is the whole of it when the file
  is empty or ends with a delimiter line); the bucket of an object name holds the
  complete unit once for every line of it that starts with \<open>o\<close> and names the object, in
  the order of those lines, and a name no line has is not a key. A file with a
  normalized line that starts with \<open>o\<close> and has a single token makes the parser raise
  \<open>IndexError\<close>.
\<close>

theorem load_foon_spec:
  "(object_lines_ok (map normalize file_lines) \<longrightarrow>
      (\<exists>units idx.
         load_foon file_lines = Inr (units, idx) \<and>
         [] \<notin> set units \<and>
         (\<exists>rest. spec_units (map normalize file_lines) = units @ rest) \<and>
         (ends_with_delimiter file_lines \<longrightarrow> units = spec_units (map normalize file_lines)) \<and>
         (\<forall>object_name. idx object_name =
             bucket_entry (spec_bucket object_name (spec_units (map normalize file_lines)))))) \<and>
   (\<not> object_lines_ok (map normalize file_lines) \<longrightarrow> load_foon file_lines = Inl IndexError) \<and>
   normalize line =
     py_join '' '' (map py_lower (py_split (filter (\<lambda>c. is_word c \<or> isspace c) line))) \<and>
   (\<forall>c\<in>set (normalize line). (is_word c \<or> c = CHR '' '') \<and> lower_char c = c) \<and>
   \<not> py_in [CHR '' '', CHR '' ''] (normalize line) \<and>
   (is_delimiter (normalize line) \<longleftrightarrow> (\<forall>c\<in>set line. \<not> is_word c))"
proof -
  let ?n = "map normalize file_lines"
  let ?units = "filter (\<lambda>unit. unit \<noteq> []) (butlast (pieces ?n))"
  let ?idx = "\<lambda>object_name. bucket_entry (spec_bucket object_name (pieces ?n))"
  have split: "pieces ?n = butlast (pieces ?n) @ [last (pieces ?n)]"
    using pieces_nonempty by simp
  have a: "\<exists>units idx.
         load_foon file_lines = Inr (units, idx) \<and>
         [] \<notin> set units \<and>
         (\<exists>rest. spec_units ?n = units @ rest) \<and>
         (ends_with_delimiter file_lines \<longrightarrow> units = spec_units ?n) \<and>
         (\<forall>object_name. idx object_name = bucket_entry (spec_bucket object_name (spec_units ?n)))"
    if ok: "object_lines_ok ?n"
  proof -
    have 1: "load_foon file_lines = Inr (?units, ?idx)"
      using ok by (simp add: load_foon_result)
    have 2: "[] \<notin> set ?units" by simp
    have 3: "spec_units ?n = ?units @ filter (\<lambda>unit. unit \<noteq> []) [last (pieces ?n)]"
      unfolding spec_units_def by (subst split) (simp only: filter_append)
    have 4: "?units = spec_units ?n" if "ends_with_delimiter file_lines"
      using 3 ends_with_delimiter_pieces [OF that] by simp
    have 5: "?idx object_name = bucket_entry (spec_bucket object_name (spec_units ?n))"
      for object_name
      by (simp add: spec_units_def spec_bucket_nonempty_units)
    show ?thesis using 1 2 3 4 5 by blast
  qed
  have b: "load_foon file_lines = Inl IndexError" if "\<not> object_lines_ok ?n"
    using that by (simp add: load_foon_result)
  have c: "\<forall>c\<in>set (normalize line). (is_word c \<or> c = CHR '' '') \<and> lower_char c = c"
    using normalize_chars by blast
  have d: "\<not> py_in [CHR '' '', CHR '' ''] (normalize line)"
    unfolding normalize_def by (rule sub_spaces_no_double)
  have e: "is_delimiter (normalize line) \<longleftrightarrow> (\<forall>c\<in>set line. \<not> is_word c)"
    by (rule normalize_delimiter)
  have f: "normalize line =
     py_join '' '' (map py_lower (py_split (filter (\<lambda>c. is_word c \<or> isspace c) line)))"
    by (rule normalize_tokens)
  show ?thesis using a b c d e f by blast
qed

text \<open>The example file gives the example unit and the index of the example state.\<close>

theorem load_foon_spec_witness:
  "object_lines_ok (map normalize example_file) \<and>
   ends_with_delimiter example_file \<and>
   (\<exists>units idx.
      load_foon example_file = Inr (units, idx) \<and>
      units = [onion_unit] \<and>
      idx ''onion'' = Some [onion_unit, onion_unit] \<and>
      idx ''knife'' = Some [onion_unit] \<and>
      idx ''omelette'' = None)"
proof -
  have ok: "object_lines_ok (map normalize example_file)"
    by (simp only: example_normalized example_ok)
  have "last example_file = raw_line [''//'']"
    by (simp add: example_file_def)
  then have e: "ends_with_delimiter example_file"
    by (simp add: ends_with_delimiter_def is_delimiter_def example_lines)
  have u: "spec_units (map normalize example_file) = [onion_unit]"
    by (simp add: spec_units_def example_normalized example_pieces onion_unit_nonempty)
  have "\<exists>units idx.
         load_foon example_file = Inr (units, idx) \<and>
         [] \<notin> set units \<and>
         (\<exists>rest. spec_units (map normalize example_file) = units @ rest) \<and>
         (ends_with_delimiter example_file \<longrightarrow> units = spec_units (map normalize example_file)) \<and>
         (\<forall>object_name. idx object_name =
             bucket_entry (spec_bucket object_name (spec_units (map normalize example_file))))"
    using load_foon_spec [of example_file "[]", THEN conjunct1] ok by (rule mp)
  then obtain units idx where
    1: "load_foon example_file = Inr (units, idx)" and
    2: "ends_with_delimiter example_file \<longrightarrow> units = spec_units (map normalize example_file)" and
    3: "\<forall>object_name. idx object_name =
          bucket_entry (spec_bucket object_name (spec_units (map normalize example_file)))"
    by (elim exE conjE)
  have 4: "units = [onion_unit]" using 2 e u by simp
  have 5: "idx ''onion'' = Some [onion_unit, onion_unit]"
    using 3 by (simp add: u example_bucket bucket_entry_def)
  have 6: "idx ''knife'' = Some [onion_unit]"
    using 3 by (simp add: u example_bucket bucket_entry_def)
  have 7: "idx ''omelette'' = None"
    using 3 by (simp add: u example_bucket bucket_entry_def)
  have "load_foon example_file = Inr (units, idx) \<and> units = [onion_unit] \<and>
      idx ''onion'' = Some [onion_unit, onion_unit] \<and>
      idx ''knife'' = Some [onion_unit] \<and> idx ''omelette'' = None"
    using 1 4 5 6 7 by (intro conjI)
  then have "\<exists>units idx.
      load_foon example_file = Inr (units, idx) \<and>
      units = [onion_unit] \<and>
      idx ''onion'' = Some [onion_unit, onion_unit] \<and>
      idx ''knife'' = Some [onion_unit] \<and>
      idx ''omelette'' = None"
    by (intro exI)
  then show ?thesis using ok e by (intro conjI)
qed

text \<open>
  As stated for every input file, C10 fails: on a file whose only line is \<open>O1\<close> the
  parser raises \<open>IndexError\<close> at \<open>line.split()[1]\<close>.
\<close>

theorem load_foon_counterexample:
  "load_foon [raw_line [''O1'']] = Inl IndexError"
  by (simp add: load_foon_def load_line_def raw_line_def normalize_def py_strip_def py_lower_def
        is_word_def isspace_def lower_char_def is_upper_def is_delimiter_def startswith_def py_split_def
        char_of_eq_iff)

end
